theory Spec2Isabelle
  imports Main
begin

section \<open>Python strings\<close>

text \<open>
  A Python \<^verbatim>\<open>str\<close> is modelled as a \<open>string\<close>, one \<open>char\<close> per code point; the
  model therefore covers the texts whose code points lie below 256. On that range
  \<^verbatim>\<open>str.isspace\<close>, which decides both \<^verbatim>\<open>str.strip()\<close> and the regular expression
  class \<^verbatim>\<open>\s\<close>, holds of the code points 9-13, 28-32, 133 and 160; the class
  \<^verbatim>\<open>\d\<close> holds of the ten ASCII digits only; and no character outside ASCII
  lower-cases to an ASCII letter.
\<close>

definition space_chars :: "char list" where
  "space_chars = [CHR 0x09, CHR 0x0A, CHR 0x0B, CHR 0x0C, CHR 0x0D, CHR 0x1C, CHR 0x1D,
     CHR 0x1E, CHR 0x1F, CHR 0x20, CHR 0x85, CHR 0xA0]"

definition is_space :: "char \<Rightarrow> bool" where
  "is_space c = (c \<in> set space_chars)"

definition is_digit :: "char \<Rightarrow> bool" where
  "is_digit c = (c \<in> set ''0123456789'')"

definition lower :: "char \<Rightarrow> char" where
  "lower c = (case map_of (zip ''ABCDEFGHIJKLMNOPQRSTUVWXYZ'' ''abcdefghijklmnopqrstuvwxyz'') c
              of Some l \<Rightarrow> l | None \<Rightarrow> c)"

text \<open>\<^verbatim>\<open>s.strip()\<close>: leading and trailing whitespace removed.\<close>

definition py_strip :: "string \<Rightarrow> string" where
  "py_strip s = rev (dropWhile is_space (rev (dropWhile is_space s)))"

text \<open>
  \<^verbatim>\<open>s.replace(old, new)\<close>: every non-overlapping occurrence of \<open>old\<close>, found from the
  left, is replaced. For an empty \<open>old\<close> Python puts \<open>new\<close> before every character and
  at the end.
\<close>

function py_replace :: "string \<Rightarrow> string \<Rightarrow> string \<Rightarrow> string" where
  "py_replace old new s =
     (if old = [] then concat (map (\<lambda>c. new @ [c]) s) @ new
      else if s = [] then []
      else if take (length old) s = old then new @ py_replace old new (drop (length old) s)
      else hd s # py_replace old new (tl s))"
  by pat_completeness auto
termination
  by (relation "measure (\<lambda>(old, new, s). length s)") auto

declare py_replace.simps [simp del]

text \<open>
  \<^verbatim>\<open>int(s)\<close> on a string: surrounding whitespace is ignored, one sign is allowed, and the
  digits may be grouped by single underscores; anything else raises \<^verbatim>\<open>ValueError\<close>,
  here \<open>None\<close>. Python integers are unbounded, but CPython refuses to convert a decimal
  string of more than \<^verbatim>\<open>sys.get_int_max_str_digits()\<close> digits, 4300 unless the
  interpreter is configured otherwise (the program does not configure it), and raises
  \<^verbatim>\<open>ValueError\<close> then too; leading zeros count, the sign and the underscores do not.
\<close>

definition int_max_str_digits :: nat where
  "int_max_str_digits = 4300"

definition digit_val :: "char \<Rightarrow> int" where
  "digit_val c = int (length (takeWhile (\<lambda>d. d \<noteq> c) ''0123456789''))"

definition dec_value :: "string \<Rightarrow> int" where
  "dec_value ds = foldl (\<lambda>n c. 10 * n + digit_val c) 0 ds"

fun digits_grouped :: "string \<Rightarrow> bool" where
  "digits_grouped [] = False"
| "digits_grouped [c] = is_digit c"
| "digits_grouped (c # d # cs) =
     (is_digit c \<and> (if d = CHR ''_'' then digits_grouped cs else digits_grouped (d # cs)))"

definition py_int :: "string \<Rightarrow> int option" where
  "py_int s =
     (let t = py_strip s;
          neg = (t \<noteq> [] \<and> hd t = CHR ''-'');
          u = (if t \<noteq> [] \<and> (hd t = CHR ''-'' \<or> hd t = CHR ''+'') then tl t else t)
      in if digits_grouped u
            \<and> length (filter (\<lambda>c. c \<noteq> CHR ''_'') u) \<le> int_max_str_digits
         then Some ((if neg then - 1 else 1) * dec_value (filter (\<lambda>c. c \<noteq> CHR ''_'') u))
         else None)"

section \<open>Regular expressions (the fragment of \<^verbatim>\<open>re\<close> the program uses)\<close>

text \<open>
  Both patterns of \<^verbatim>\<open>parse_full_report\<close> are compiled with \<^verbatim>\<open>re.IGNORECASE\<close>, the
  first with \<^verbatim>\<open>re.DOTALL\<close> too. The character classes are \<^verbatim>\<open>.\<close> (any character,
  under DOTALL), \<^verbatim>\<open>\s\<close>, \<^verbatim>\<open>\d\<close> and \<^verbatim>\<open>[0-9]\<close>; repetition is applied to classes
  only: greedy \<^verbatim>\<open>*\<close> and \<^verbatim>\<open>+\<close>, lazy \<^verbatim>\<open>+?\<close>.
\<close>

datatype cls = Any | Space | Digit | Range09

datatype regex =
    Lit char
  | Eps
  | Seq regex regex
  | Alt regex regex
  | Star cls
  | Plus cls
  | LazyStar cls
  | LazyPlus cls
  | Group nat regex
  | Lookahead regex
  | EndZ

fun in_cls :: "cls \<Rightarrow> char \<Rightarrow> bool" where
  "in_cls Any c = True"
| "in_cls Space c = is_space c"
| "in_cls Digit c = is_digit c"
| "in_cls Range09 c = is_digit c"

text \<open>
  The matcher of \<^verbatim>\<open>re\<close> is a backtracking one: it tries the left alternative before the
  right one, the longest repetition first when the repetition is greedy and the shortest
  first when it is lazy, and reports the first way that lets the rest of the pattern match.
  \<open>bt k s g\<close> runs the stack \<open>k\<close> of what is still to be matched against the text \<open>s\<close>
  still to be read, with the groups \<open>g\<close> captured so far (latest first); the result is the
  text left after the match and the captures, or \<open>None\<close> when every way fails. A frame
  \<open>Close n s0\<close> ends group \<open>n\<close>, which began when the text still to be read was \<open>s0\<close>.
  The one lookahead of the program holds no group, so a lookahead leaves the captures as
  they are.
\<close>

datatype frame = Rx regex | Close nat string

type_synonym caps = "(nat \<times> string) list"
type_synonym mstate = "string \<times> caps"

fun wt :: "regex \<Rightarrow> nat" where
  "wt (Seq a b) = Suc (wt a + wt b)"
| "wt (Alt a b) = Suc (wt a + wt b)"
| "wt (Plus c) = 2"
| "wt (LazyPlus c) = 2"
| "wt (Group n r) = Suc (Suc (wt r))"
| "wt (Lookahead r) = Suc (wt r)"
| "wt r = 1"

fun fwt :: "frame \<Rightarrow> nat" where
  "fwt (Rx r) = wt r"
| "fwt (Close n s0) = 1"

function (sequential) bt :: "frame list \<Rightarrow> string \<Rightarrow> caps \<Rightarrow> mstate option" where
  "bt [] s g = Some (s, g)"
| "bt (Rx (Lit c) # k) [] g = None"
| "bt (Rx (Lit c) # k) (x # xs) g = (if lower x = lower c then bt k xs g else None)"
| "bt (Rx Eps # k) s g = bt k s g"
| "bt (Rx (Seq a b) # k) s g = bt (Rx a # Rx b # k) s g"
| "bt (Rx (Alt a b) # k) s g =
     (case bt (Rx a # k) s g of Some m \<Rightarrow> Some m | None \<Rightarrow> bt (Rx b # k) s g)"
| "bt (Rx (Star c) # k) [] g = bt k [] g"
| "bt (Rx (Star c) # k) (x # xs) g =
     (if in_cls c x
      then (case bt (Rx (Star c) # k) xs g of Some m \<Rightarrow> Some m | None \<Rightarrow> bt k (x # xs) g)
      else bt k (x # xs) g)"
| "bt (Rx (Plus c) # k) [] g = None"
| "bt (Rx (Plus c) # k) (x # xs) g = (if in_cls c x then bt (Rx (Star c) # k) xs g else None)"
| "bt (Rx (LazyStar c) # k) [] g = bt k [] g"
| "bt (Rx (LazyStar c) # k) (x # xs) g =
     (case bt k (x # xs) g of
        Some m \<Rightarrow> Some m
      | None \<Rightarrow> if in_cls c x then bt (Rx (LazyStar c) # k) xs g else None)"
| "bt (Rx (LazyPlus c) # k) [] g = None"
| "bt (Rx (LazyPlus c) # k) (x # xs) g =
     (if in_cls c x then bt (Rx (LazyStar c) # k) xs g else None)"
| "bt (Rx (Group n r) # k) s g = bt (Rx r # Close n s # k) s g"
| "bt (Close n s0 # k) s g = bt k s ((n, take (length s0 - length s) s0) # g)"
| "bt (Rx (Lookahead r) # k) s g =
     (case bt [Rx r] s g of None \<Rightarrow> None | Some m \<Rightarrow> bt k s g)"
| "bt (Rx EndZ # k) [] g = bt k [] g"
| "bt (Rx EndZ # k) (x # xs) g = None"
  by pat_completeness auto
termination
  by (relation "measures [\<lambda>(k, s, g). sum_list (map fwt k), \<lambda>(k, s, g). length s]") auto

definition lits :: "string \<Rightarrow> regex" where
  "lits s = foldr (\<lambda>c r. Seq (Lit c) r) s Eps"

definition seqs :: "regex list \<Rightarrow> regex" where
  "seqs rs = foldr Seq rs Eps"

text \<open>\<^verbatim>\<open>m.group(n)\<close>; in the tuples of \<^verbatim>\<open>findall\<close> a group that took no part is empty.\<close>

definition group :: "caps \<Rightarrow> nat \<Rightarrow> string" where
  "group g n = (case map_of g n of Some x \<Rightarrow> x | None \<Rightarrow> [])"

definition match_at :: "regex \<Rightarrow> string \<Rightarrow> mstate option" where
  "match_at r s = bt [Rx r] s []"

text \<open>
  \<^verbatim>\<open>re.search\<close>: the leftmost position at which the pattern matches; the result is the
  index \<^verbatim>\<open>m.start()\<close>.
\<close>

fun search :: "regex \<Rightarrow> string \<Rightarrow> nat option" where
  "search r [] = (if match_at r [] \<noteq> None then Some 0 else None)"
| "search r (x # xs) =
     (if match_at r (x # xs) \<noteq> None then Some 0 else map_option Suc (search r xs))"

text \<open>
  \<^verbatim>\<open>re.findall\<close>: the matches from left to right, each search starting where the
  previous match ended; the result lists the captures of each match. A match that reads
  nothing makes the scan move on by one character; neither pattern of the program can
  match without reading (each begins with the literal text of a marker).
\<close>

function findall :: "regex \<Rightarrow> string \<Rightarrow> caps list" where
  "findall r s =
     (case match_at r s of
        Some (s', g) \<Rightarrow>
          if length s' < length s then g # findall r s'
          else if s = [] then [g] else g # findall r (tl s)
      | None \<Rightarrow> if s = [] then [] else findall r (tl s))"
  by pat_completeness auto
termination
  by (relation "measure (\<lambda>(r, s). length s)") auto

declare findall.simps [simp del]

section \<open>parse\_full\_report\<close>

text \<open>
  \<^verbatim>\<open>Question:\s*(.+?)\s*\n\s*Score:\s*(\d+)\s*\n\s*Comment:\s*(.+?)(?=\n\s*Question:|\n\s*[0-9]+\.|\Z)\<close>
  (app.py, line 49).
\<close>

definition qa_pattern :: regex where
  "qa_pattern = seqs
     [lits ''Question:'', Star Space, Group 1 (LazyPlus Any), Star Space,
      Lit CHR ''\<newline>'', Star Space, lits ''Score:'', Star Space, Group 2 (Plus Digit),
      Star Space, Lit CHR ''\<newline>'', Star Space, lits ''Comment:'', Star Space,
      Group 3 (LazyPlus Any),
      Lookahead
        (Alt (seqs [Lit CHR ''\<newline>'', Star Space, lits ''Question:''])
          (Alt (seqs [Lit CHR ''\<newline>'', Star Space, Plus Range09, Lit CHR ''.''])
            EndZ))]"

text \<open>\<^verbatim>\<open>(2\.\s*Overall Evaluation:|Overall Evaluation:)\<close> (app.py, line 58).\<close>

definition split_pattern :: regex where
  "split_pattern =
     Group 1 (Alt (seqs [lits ''2.'', Star Space, lits ''Overall Evaluation:''])
                  (lits ''Overall Evaluation:''))"

text \<open>
  The exceptions of the program: the three that its own statements raise, and
  \<open>LibraryError\<close> for an exception raised inside the PDF library or the web framework
  while the document is laid out or sent.
\<close>

datatype error = ValueError | TypeError | KeyError | LibraryError

type_synonym qa_record = "string \<times> int \<times> string"

text \<open>The tuples \<^verbatim>\<open>(q, s, c)\<close> that \<^verbatim>\<open>re.findall(qa_pattern, text, ...)\<close> returns.\<close>

definition qa_matches :: "string \<Rightarrow> (string \<times> string \<times> string) list" where
  "qa_matches text = map (\<lambda>g. (group g 1, group g 2, group g 3)) (findall qa_pattern text)"

definition q_clean :: "string \<Rightarrow> string" where
  "q_clean q = py_strip (py_replace ''Your '' [] q)"

definition c_clean :: "string \<Rightarrow> string" where
  "c_clean c = py_replace ''\<newline>'' '' '' (py_strip c)"

text \<open>The loop of lines 52-56; \<^verbatim>\<open>int(s)\<close> may raise, which ends the function.\<close>

fun structured_qa :: "(string \<times> string \<times> string) list \<Rightarrow> error + qa_record list" where
  "structured_qa [] = Inr []"
| "structured_qa ((q, s, c) # ms) =
     (case py_int s of
        None \<Rightarrow> Inl ValueError
      | Some n \<Rightarrow>
          (case structured_qa ms of
             Inl e \<Rightarrow> Inl e
           | Inr rs \<Rightarrow> Inr ((q_clean q, n, c_clean c) # rs)))"

definition remaining_text :: "string \<Rightarrow> string" where
  "remaining_text text =
     (case search split_pattern text of
        Some start_index \<Rightarrow> py_strip (drop start_index text)
      | None \<Rightarrow> [])"

definition parse_full_report :: "string \<Rightarrow> error + (qa_record list \<times> string)" where
  "parse_full_report text =
     (case structured_qa (qa_matches text) of
        Inl e \<Rightarrow> Inl e
      | Inr qa \<Rightarrow> Inr (qa, remaining_text text))"

section \<open>Score colours (create\_score\_chart, create\_qa\_table)\<close>

text \<open>
  The chart colours its bars in \<^verbatim>\<open>create_score_chart\<close> (app.py, lines 90-96):
  \<^verbatim>\<open>if val <= 3: "#e74c3c"  elif val <= 6: "#f1c40f"  else: "#2ecc71"\<close>.
  The table colours its score cell in \<^verbatim>\<open>create_qa_table\<close> (line 117):
  \<^verbatim>\<open>"green" if s > 6 else "orange" if s > 3 else "red"\<close>.
  Scores are Python integers, hence \<open>int\<close>.
\<close>

definition chart_fill_color :: "int \<Rightarrow> string" where
  "chart_fill_color val =
     (if val \<le> 3 then ''#e74c3c'' else if val \<le> 6 then ''#f1c40f'' else ''#2ecc71'')"

definition table_score_color :: "int \<Rightarrow> string" where
  "table_score_color s = (if s > 6 then ''green'' else if s > 3 then ''orange'' else ''red'')"

text \<open>
  The three severity bands of the specification, and the band each colour literal of the
  source stands for: \<open>#e74c3c\<close> and \<open>red\<close> are the red band, \<open>#f1c40f\<close> and
  \<open>orange\<close> the amber band, \<open>#2ecc71\<close> and \<open>green\<close> the green band. A colour that
  neither function can produce has no band.
\<close>

datatype band = Low | Mid | High

definition band_of_color :: "string \<Rightarrow> band option" where
  "band_of_color c =
     (if c = ''#e74c3c'' \<or> c = ''red'' then Some Low
      else if c = ''#f1c40f'' \<or> c = ''orange'' then Some Mid
      else if c = ''#2ecc71'' \<or> c = ''green'' then Some High
      else None)"

section \<open>Chart and table (create\_score\_chart, create\_qa\_table)\<close>

text \<open>Decimal notation, for the f-strings \<^verbatim>\<open>f"Q{i + 1}"\<close> and \<^verbatim>\<open>f"...{s}/10..."\<close>.\<close>

fun show_nat :: "nat \<Rightarrow> string" where
  "show_nat n =
     (if n < 10 then [''0123456789'' ! n]
      else show_nat (n div 10) @ [''0123456789'' ! (n mod 10)])"

definition show_int :: "int \<Rightarrow> string" where
  "show_int i = (if i < 0 then CHR ''-'' # show_nat (nat (- i)) else show_nat (nat i))"

text \<open>
  The drawing that \<^verbatim>\<open>create_score_chart\<close> returns: the bar values, the category names
  and the fill colour of each bar, on the fixed value axis from 0 to 10.
\<close>

record bar_chart =
  chart_data :: "int list"
  category_names :: "string list"
  fill_colors :: "string list"
  value_min :: int
  value_max :: int

definition create_score_chart :: "qa_record list \<Rightarrow> bar_chart option" where
  "create_score_chart parsed_data =
     (if parsed_data = [] then None
      else
        let data = map (\<lambda>item. fst (snd item)) parsed_data;
            labels = map (\<lambda>i. ''Q'' @ show_nat (i + 1)) [0 ..< length data]
        in Some \<lparr>chart_data = data, category_names = labels,
                 fill_colors = map chart_fill_color data, value_min = 0, value_max = 10\<rparr>)"

text \<open>
  The table that \<^verbatim>\<open>create_qa_table\<close> returns: a header row, then one row per record
  with the question, the comment and the coloured score. A cell is a paragraph: its
  markup and the name of its style. (The function itself follows the story below, since
  building a paragraph may fail.)
\<close>

type_synonym cell = "string \<times> string"

record qa_table =
  table_rows :: "cell list list"
  col_widths :: "nat list"
  repeat_rows :: nat

definition score_para :: "int \<Rightarrow> cell" where
  "score_para s =
     (''<font color='' @ [CHR 0x27] @ table_score_color s @ [CHR 0x27] @ ''><b>'' @ show_int s
        @ ''/10</b></font>'', ''TabNormal'')"

section \<open>The request handler (generate\_report\_api)\<close>

text \<open>
  \<^verbatim>\<open>request.get_json()\<close> yields a parsed JSON value: \<^verbatim>\<open>None\<close>, a bool, a number, a
  string, a list, or a dict, whose items are listed here with their keys. (A number is
  kept as an integer; a float behaves like an integer in the three operations below.)
\<close>

datatype json =
    JNull
  | JBool bool
  | JNum int
  | JStr string
  | JArr "json list"
  | JObj "(string \<times> json) list"

text \<open>Python truth value, as in \<^verbatim>\<open>if not req_data\<close>.\<close>

fun truthy :: "json \<Rightarrow> bool" where
  "truthy JNull = False"
| "truthy (JBool b) = b"
| "truthy (JNum n) = (n \<noteq> 0)"
| "truthy (JStr s) = (s \<noteq> [])"
| "truthy (JArr xs) = (xs \<noteq> [])"
| "truthy (JObj kvs) = (kvs \<noteq> [])"

fun is_substring :: "string \<Rightarrow> string \<Rightarrow> bool" where
  "is_substring f [] = (f = [])"
| "is_substring f (x # xs) = (take (length f) (x # xs) = f \<or> is_substring f xs)"

text \<open>
  \<^verbatim>\<open>field in req_data\<close>: a key of a dict, an element of a list, a substring of a string;
  a bool or a number is not iterable, and the test raises \<^verbatim>\<open>TypeError\<close>.
\<close>

fun py_in :: "string \<Rightarrow> json \<Rightarrow> error + bool" where
  "py_in f (JObj kvs) = Inr (f \<in> set (map fst kvs))"
| "py_in f (JArr xs) = Inr (JStr f \<in> set xs)"
| "py_in f (JStr s) = Inr (is_substring f s)"
| "py_in f v = Inl TypeError"

text \<open>\<^verbatim>\<open>req_data[key]\<close> with a string key: defined on a dict that has the key.\<close>

fun subscript :: "json \<Rightarrow> string \<Rightarrow> error + json" where
  "subscript (JObj kvs) key = (case map_of kvs key of Some v \<Rightarrow> Inr v | None \<Rightarrow> Inl KeyError)"
| "subscript v key = Inl TypeError"

definition required_fields :: "string list" where
  "required_fields =
     [''candidate_name'', ''candidate_position'', ''date'', ''interview_id'', ''ai_overview'']"

text \<open>
  The flowables of the story handed to \<^verbatim>\<open>doc.build\<close>. \<open>NoneF\<close> stands for a
  \<^verbatim>\<open>None\<close> appended to the story, which line 298 would do if \<^verbatim>\<open>create_qa_table\<close>
  returned none.
\<close>

datatype flowable =
    NextPageTemplate string
  | Para string string
  | Spacer nat nat
  | ChartF bar_chart
  | TableF qa_table
  | NoneF

text \<open>
  The PDF library and the web framework are not part of the program; what the handler
  needs of them is taken as a parameter. \<^verbatim>\<open>Paragraph(text, style)\<close> parses its text as
  markup and raises \<^verbatim>\<open>ValueError\<close> when the markup is malformed (an opened tag that is
  never closed, say): \<open>markup_ok\<close> tells which texts it accepts. \<open>build_ok\<close> tells whether
  \<^verbatim>\<open>doc.build(story)\<close> returns for the request data and the story, and \<open>send_ok\<close>
  whether \<^verbatim>\<open>send_file\<close> accepts the download name made from \<^verbatim>\<open>interview_id\<close>.
\<close>

record renderer =
  markup_ok :: "string \<Rightarrow> bool"
  build_ok :: "json \<Rightarrow> flowable list \<Rightarrow> bool"
  send_ok :: "json \<Rightarrow> bool"

text \<open>\<^verbatim>\<open>Paragraph(text, style)\<close>, as a flowable of the story.\<close>

definition para :: "renderer \<Rightarrow> string \<Rightarrow> string \<Rightarrow> error + flowable" where
  "para R t style = (if markup_ok R t then Inr (Para t style) else Inl ValueError)"

text \<open>
  \<^verbatim>\<open>create_qa_table\<close> (lines 102-140): none for no record; otherwise the three header
  paragraphs and, for each record, the paragraphs of its score, its question and its
  comment are built, and any of them may raise.
\<close>

definition create_qa_table :: "renderer \<Rightarrow> qa_record list \<Rightarrow> error + qa_table option" where
  "create_qa_table R parsed_qa =
     (if parsed_qa = [] then Inr None
      else if list_all (markup_ok R) [''Question'', ''Analysis / Feedback'', ''Score'']
              \<and> list_all (\<lambda>(q, s, c). markup_ok R (fst (score_para s)) \<and> markup_ok R q
                            \<and> markup_ok R c) parsed_qa
      then Inr (Some \<lparr>table_rows =
                   [(''Question'', ''TabHeader''), (''Analysis / Feedback'', ''TabHeader''),
                    (''Score'', ''TabHeader'')]
                   # map (\<lambda>(q, s, c). [(q, ''TabNormal''), (c, ''TabNormal''), score_para s])
                       parsed_qa,
                 col_widths = [140, 286, 70], repeat_rows = 1\<rparr>)
      else Inl ValueError)"

text \<open>
  Lines 303-307. Each \<^verbatim>\<open>re.sub\<close> there has a pattern without metacharacters and no
  flags, and puts the matched text back inside its markup, so it is the replacement of
  every occurrence of a fixed string.
\<close>

definition format_remaining :: "string \<Rightarrow> string" where
  "format_remaining remaining =
     (let t0 = py_replace ''\<newline>'' ''<br/>'' remaining;
          t1 = py_replace ''Overall Evaluation:'' ''<b>Overall Evaluation:</b>'' t0;
          t2 = py_replace ''Final Recommendation:'' ''<br/><br/><b>Final Recommendation:</b>'' t1;
          t3 = py_replace ''Strengths:'' ''<b>Strengths:</b>'' t2
      in py_replace ''Weaknesses:'' ''<b>Weaknesses:</b>'' t3)"

text \<open>
  Lines 279-309: the story built from the parsed records and the remainder, in three
  parts after the template switch: the chart with its heading (lines 286-291), the table
  with its heading (lines 294-299), and the remainder (lines 302-309). An exception in any
  part ends the construction.
\<close>

definition chart_part :: "renderer \<Rightarrow> qa_record list \<Rightarrow> error + flowable list" where
  "chart_part R qa_data =
     (if qa_data = [] then Inr []
      else (case para R ''<b>Score Overview</b>'' ''Head'' of
              Inl e \<Rightarrow> Inl e
            | Inr heading \<Rightarrow>
                Inr (heading # (case create_score_chart qa_data of
                                  Some chart \<Rightarrow> [ChartF chart, Spacer 1 15]
                                | None \<Rightarrow> []))))"

definition table_part :: "renderer \<Rightarrow> qa_record list \<Rightarrow> error + flowable list" where
  "table_part R qa_data =
     (if qa_data = [] then Inr []
      else (case para R ''<b>Detailed Question Analysis</b>'' ''Head'' of
              Inl e \<Rightarrow> Inl e
            | Inr heading \<Rightarrow>
                (case create_qa_table R qa_data of
                   Inl e \<Rightarrow> Inl e
                 | Inr t \<Rightarrow>
                     Inr [heading, Spacer 1 5,
                          (case t of Some tb \<Rightarrow> TableF tb | None \<Rightarrow> NoneF),
                          Spacer 1 20])))"

definition remaining_part :: "renderer \<Rightarrow> string \<Rightarrow> error + flowable list" where
  "remaining_part R remaining =
     (if remaining = [] then Inr []
      else (case para R (format_remaining remaining) ''Body'' of
              Inl e \<Rightarrow> Inl e
            | Inr p \<Rightarrow> Inr [p]))"

definition build_story :: "renderer \<Rightarrow> qa_record list \<Rightarrow> string \<Rightarrow> error + flowable list" where
  "build_story R qa_data remaining =
     (case chart_part R qa_data of
        Inl e \<Rightarrow> Inl e
      | Inr s1 \<Rightarrow>
         (case table_part R qa_data of
            Inl e \<Rightarrow> Inl e
          | Inr s2 \<Rightarrow>
             (case remaining_part R remaining of
                Inl e \<Rightarrow> Inl e
              | Inr s3 \<Rightarrow> Inr ([NextPageTemplate ''Later''] @ s1 @ s2 @ s3))))"

text \<open>
  The responses of the handler: \<^verbatim>\<open>jsonify({"error": msg}), 400\<close>; the exception caught at
  line 324, answered with \<^verbatim>\<open>jsonify({"error": str(e)}), 500\<close>; and the PDF file, given here
  by the value of \<^verbatim>\<open>interview_id\<close> that names it and the story it is built from.
\<close>

datatype response =
    Bad_request string
  | Internal_failure error
  | Pdf_file json "flowable list"

fun check_required :: "string list \<Rightarrow> json \<Rightarrow> response option" where
  "check_required [] req_data = None"
| "check_required (field # rest) req_data =
     (case py_in field req_data of
        Inl e \<Rightarrow> Some (Internal_failure e)
      | Inr present \<Rightarrow>
          if \<not> present then Some (Bad_request (''Missing field: '' @ field))
          else check_required rest req_data)"

text \<open>
  Lines 283-322, once the payload has passed the checks: parse, build the story, lay it
  out, name the file and send it. Every exception on the way is answered with status 500.
\<close>

definition render_report :: "renderer \<Rightarrow> json \<Rightarrow> json \<Rightarrow> response" where
  "render_report R req_data ai_text =
     (case (case ai_text of JStr t \<Rightarrow> parse_full_report t | _ \<Rightarrow> Inl TypeError) of
        Inl e \<Rightarrow> Internal_failure e
      | Inr (qa_data, remaining) \<Rightarrow>
         (case build_story R qa_data remaining of
            Inl e \<Rightarrow> Internal_failure e
          | Inr story \<Rightarrow>
             if \<not> build_ok R req_data story then Internal_failure LibraryError
             else (case subscript req_data ''interview_id'' of
                     Inl e \<Rightarrow> Internal_failure e
                   | Inr ident \<Rightarrow>
                       if \<not> send_ok R ident then Internal_failure LibraryError
                       else Pdf_file ident story)))"

definition generate_report_api :: "renderer \<Rightarrow> json \<Rightarrow> response" where
  "generate_report_api R req_data =
     (if \<not> truthy req_data then Bad_request ''No JSON data provided''
      else (case check_required required_fields req_data of
              Some resp \<Rightarrow> resp
            | None \<Rightarrow>
               (case subscript req_data ''ai_overview'' of
                  Inl e \<Rightarrow> Internal_failure e
                | Inr ai_text \<Rightarrow> render_report R req_data ai_text)))"

text \<open>
  An instance of the parameter, for the examples: a paragraph builder that refuses a text
  in which the tags \<open><b>\<close> and \<open></b>\<close> are not equally many (the library refuses an
  opened tag that is never closed), with a layout and a sender that accept everything.
\<close>

fun occurrences :: "string \<Rightarrow> string \<Rightarrow> nat" where
  "occurrences p [] = 0"
| "occurrences p (x # xs) =
     (if take (length p) (x # xs) = p then 1 else 0) + occurrences p xs"

definition paired_bold :: renderer where
  "paired_bold =
     \<lparr>markup_ok = (\<lambda>t. occurrences ''<b>'' t = occurrences ''</b>'' t),
      build_ok = (\<lambda>req_data story. True),
      send_ok = (\<lambda>ident. True)\<rparr>"

section \<open>The specification's wording, for comparison\<close>

text \<open>
  \<open>ci_prefix p s\<close>: the text \<open>s\<close> begins with \<open>p\<close>, letter case ignored.
  \<open>first_index P s\<close>: the least position of \<open>s\<close> from which the rest satisfies \<open>P\<close>.
\<close>

definition ci_prefix :: "string \<Rightarrow> string \<Rightarrow> bool" where
  "ci_prefix p s = (length p \<le> length s \<and> map lower (take (length p) s) = map lower p)"

fun first_index :: "(string \<Rightarrow> bool) \<Rightarrow> string \<Rightarrow> nat option" where
  "first_index P [] = (if P [] then Some 0 else None)"
| "first_index P (x # xs) = (if P (x # xs) then Some 0 else map_option Suc (first_index P xs))"

text \<open>
  The remainder as the specification words it: the text from the first occurrence of
  one of the two markers \<open>2. Overall Evaluation:\<close> and \<open>Overall Evaluation:\<close>, trimmed.
\<close>

definition literal_marker_at :: "string \<Rightarrow> bool" where
  "literal_marker_at s =
     (ci_prefix ''2. Overall Evaluation:'' s \<or> ci_prefix ''Overall Evaluation:'' s)"

definition literal_remainder :: "string \<Rightarrow> string" where
  "literal_remainder text =
     (case first_index literal_marker_at text of
        Some i \<Rightarrow> py_strip (drop i text)
      | None \<Rightarrow> [])"

text \<open>
  The marker as the pattern has it: \<open>Overall Evaluation:\<close>, or \<open>2.\<close> followed by any
  run of whitespace, also none, and then \<open>Overall Evaluation:\<close>.
\<close>

definition marker_at :: "string \<Rightarrow> bool" where
  "marker_at s =
     (ci_prefix ''Overall Evaluation:'' s
      \<or> (ci_prefix ''2.'' s \<and> ci_prefix ''Overall Evaluation:'' (dropWhile is_space (drop 2 s))))"

text \<open>
  The question as the specification words it: one leading \<open>Your \<close> removed, then trimmed.
\<close>

definition strip_leading_your :: "string \<Rightarrow> string" where
  "strip_leading_your q = (if take 5 q = ''Your '' then drop 5 q else q)"

text \<open>
  A narrative of question blocks, each of the shape \<open>Question: q\<close>, \<open>Score: d\<close>,
  \<open>Comment: c\<close> on three lines, one block after the other. The comment \<open>c\<close> is all the
  text up to the line feed before the next block (for the last block, up to the end of
  the text), so it may run over several lines and end in blank lines.

  A block has the shape the pattern looks for when its question lies on one line and is
  not blank, its score is a non-empty run of decimal digits, and its comment is not blank
  and either is one line once trimmed or holds no \<open>Question:\<close> marker. It is well formed
  when moreover its score has no more digits than \<^verbatim>\<open>int\<close> accepts.
\<close>

definition block_text :: "string \<times> string \<times> string \<Rightarrow> string" where
  "block_text b =
     (case b of (q, d, c) \<Rightarrow>
        ''Question: '' @ q @ ''\<newline>Score: '' @ d @ ''\<newline>Comment: '' @ c)"

fun narrative :: "(string \<times> string \<times> string) list \<Rightarrow> string" where
  "narrative [] = []"
| "narrative [b] = block_text b"
| "narrative (b # b' # bs) = block_text b @ ''\<newline>'' @ narrative (b' # bs)"

definition no_marker :: "string \<Rightarrow> bool" where
  "no_marker s = (first_index (ci_prefix ''Question:'') s = None)"

definition block_shape :: "string \<times> string \<times> string \<Rightarrow> bool" where
  "block_shape b =
     (case b of (q, d, c) \<Rightarrow>
        list_ex (\<lambda>x. \<not> is_space x) q \<and> CHR ''\<newline>'' \<notin> set q
        \<and> d \<noteq> [] \<and> list_all is_digit d
        \<and> list_ex (\<lambda>x. \<not> is_space x) c
        \<and> (CHR ''\<newline>'' \<notin> set (py_strip c) \<or> no_marker c))"

definition wf_block :: "string \<times> string \<times> string \<Rightarrow> bool" where
  "wf_block b = (block_shape b \<and> (case b of (q, d, c) \<Rightarrow> length d \<le> int_max_str_digits))"

text \<open>
  Text before the first block: any text such that the first \<open>Question:\<close> marker of the
  whole is the one of the first block.
\<close>

definition lead_ok :: "string \<Rightarrow> bool" where
  "lead_ok pre =
     (first_index (ci_prefix ''Question:'') (pre @ ''Question:'') = Some (length pre))"

text \<open>
  The captures of a match agree with a block: the first is the trimmed question, the
  second the score token, and the third, once cleaned, the trimmed comment when that is
  one line.
\<close>

definition block_match :: "caps \<Rightarrow> string \<times> string \<times> string \<Rightarrow> bool" where
  "block_match g b =
     (case b of (q, d, c) \<Rightarrow>
        group g 1 = py_strip q \<and> group g 2 = d
        \<and> (CHR ''\<newline>'' \<notin> set (py_strip c) \<longrightarrow> c_clean (group g 3) = py_strip c))"

section \<open>Groups of a pattern\<close>

text \<open>\<open>grp_free n r\<close>: the pattern \<open>r\<close> has no group numbered \<open>n\<close>.\<close>

fun grp_free :: "nat \<Rightarrow> regex \<Rightarrow> bool" where
  "grp_free n (Seq a b) = (grp_free n a \<and> grp_free n b)"
| "grp_free n (Alt a b) = (grp_free n a \<and> grp_free n b)"
| "grp_free n (Group m r) = (m \<noteq> n \<and> grp_free n r)"
| "grp_free n (Lookahead r) = grp_free n r"
| "grp_free n r = True"

fun frame_free :: "nat \<Rightarrow> frame \<Rightarrow> bool" where
  "frame_free n (Rx r) = grp_free n r"
| "frame_free n (Close m s0) = (m \<noteq> n)"

text \<open>
  Names for the parts of \<open>qa_pattern\<close>: the lookahead that ends a comment, and the
  pattern from its third, its second and its first group onwards.
\<close>

definition comment_end :: regex where
  "comment_end =
     Alt (seqs [Lit CHR ''\<newline>'', Star Space, lits ''Question:''])
       (Alt (seqs [Lit CHR ''\<newline>'', Star Space, Plus Range09, Lit CHR ''.'']) EndZ)"

definition qa_tail3 :: "regex list" where
  "qa_tail3 = [Group 3 (LazyPlus Any), Lookahead comment_end]"

definition qa_tail2 :: "regex list" where
  "qa_tail2 = [Group 2 (Plus Digit), Star Space, Lit CHR ''\<newline>'', Star Space,
               lits ''Comment:'', Star Space] @ qa_tail3"

definition qa_tail1 :: "regex list" where
  "qa_tail1 = [Group 1 (LazyPlus Any), Star Space, Lit CHR ''\<newline>'', Star Space,
               lits ''Score:'', Star Space] @ qa_tail2"

section \<open>Properties\<close>

subsection \<open>The matcher\<close>

text \<open>A match of a stack runs every part of the stack.\<close>

lemma bt_through:
  "bt (k1 @ k2) s g = Some m \<Longrightarrow> \<exists>s' g'. bt k2 s' g' = Some m"
proof (induction "k1 @ k2" s g arbitrary: k1 rule: bt.induct)
  case (1 s g)
  then show ?case by auto
next
  case (2 c k g)
  then show ?case by (cases k1) auto
next
  case (3 c k x xs g)
  then show ?case by (cases k1) (auto split: if_splits)
next
  case (4 k s g)
  then show ?case by (cases k1) auto
next
  case (5 a b k s g)
  show ?case
  proof (cases k1)
    case Nil
    with 5 show ?thesis by auto
  next
    case (Cons f k1')
    with 5(2) have "Rx a # Rx b # k = (Rx a # Rx b # k1') @ k2" by simp
    from 5(1)[OF this] 5(3) 5(2) Cons show ?thesis by auto
  qed
next
  case (6 a b k s g)
  show ?case
  proof (cases k1)
    case Nil
    with 6 show ?thesis by auto
  next
    case (Cons f k1')
    with 6(3) have e1: "Rx a # k = (Rx a # k1') @ k2" and e2: "Rx b # k = (Rx b # k1') @ k2" by simp_all
    from 6(4) 6(3) Cons show ?thesis
      using 6(1)[OF e1] 6(2)[OF _ e2] by (auto split: option.splits)
  qed
next
  case (7 c k g)
  then show ?case by (cases k1) auto
next
  case (8 c k x xs g)
  show ?case
  proof (cases k1)
    case Nil
    with 8 show ?thesis by auto
  next
    case (Cons f k1')
    with 8(4) have e1: "Rx (Star c) # k = (Rx (Star c) # k1') @ k2" and e2: "k = k1' @ k2" by simp_all
    from 8(5) 8(4) Cons show ?thesis
      using 8(1)[OF _ e1] 8(2)[OF _ _ e2] 8(3)[OF _ e2]
      by (cases "in_cls c x"; auto split: option.splits if_splits)
  qed
next
  case (9 c k g)
  then show ?case by (cases k1) auto
next
  case (10 c k x xs g)
  show ?case
  proof (cases k1)
    case Nil
    with 10 show ?thesis by auto
  next
    case (Cons f k1')
    with 10(2) have e1: "Rx (Star c) # k = (Rx (Star c) # k1') @ k2" by simp
    from 10(3) 10(2) Cons show ?thesis
      using 10(1)[OF _ e1] by (auto split: if_splits)
  qed
next
  case (11 c k g)
  then show ?case by (cases k1) auto
next
  case (12 c k x xs g)
  show ?case
  proof (cases k1)
    case Nil
    with 12 show ?thesis by auto
  next
    case (Cons f k1')
    with 12(3) have e1: "Rx (LazyStar c) # k = (Rx (LazyStar c) # k1') @ k2" and e2: "k = k1' @ k2" by simp_all
    from 12(4) 12(3) Cons show ?thesis
      using 12(1)[OF e2] 12(2)[OF _ _ e1]
      by (cases "in_cls c x"; auto split: option.splits if_splits)
  qed
next
  case (13 c k g)
  then show ?case by (cases k1) auto
next
  case (14 c k x xs g)
  show ?case
  proof (cases k1)
    case Nil
    with 14 show ?thesis by auto
  next
    case (Cons f k1')
    with 14(2) have e1: "Rx (LazyStar c) # k = (Rx (LazyStar c) # k1') @ k2" by simp
    from 14(3) 14(2) Cons show ?thesis
      using 14(1)[OF _ e1] by (auto split: if_splits)
  qed
next
  case (15 n r k s g)
  show ?case
  proof (cases k1)
    case Nil
    with 15 show ?thesis by auto
  next
    case (Cons f k1')
    with 15(2) have e1: "Rx r # Close n s # k = (Rx r # Close n s # k1') @ k2" by simp
    from 15(3) 15(2) Cons show ?thesis
      using 15(1)[OF e1] by auto
  qed
next
  case (16 n s0 k s g)
  then show ?case by (cases k1) auto
next
  case (17 r k s g)
  show ?case
  proof (cases k1)
    case Nil
    with 17 show ?thesis by auto
  next
    case (Cons f k1')
    with 17(3) have e2: "k = k1' @ k2" by simp
    from 17(4) 17(3) Cons show ?thesis
      using 17(2)[OF _ e2] by (auto split: option.splits)
  qed
next
  case (18 k g)
  then show ?case by (cases k1) auto
next
  case (19 k x xs g)
  then show ?case by (cases k1) auto
qed

lemma bt_seqs_through:
  "bt (Rx (seqs (rs1 @ rs2)) # k) s g = Some m \<Longrightarrow> \<exists>s' g'. bt (Rx (seqs rs2) # k) s' g' = Some m"
proof (induction rs1 arbitrary: s g)
  case Nil
  then show ?case by auto
next
  case (Cons r rs1)
  from Cons.prems have "bt ([Rx r] @ (Rx (seqs (rs1 @ rs2)) # k)) s g = Some m"
    by (simp add: seqs_def)
  from bt_through[OF this] obtain s' g' where "bt (Rx (seqs (rs1 @ rs2)) # k) s' g' = Some m"
    by blast
  from Cons.IH[OF this] show ?case .
qed

lemma bt_Star_inv:
  "bt (Rx (Star c) # k) s g = Some m \<Longrightarrow>
   \<exists>n\<le>length s. (\<forall>x\<in>set (take n s). in_cls c x) \<and> bt k (drop n s) g = Some m"
proof (induction s)
  case Nil
  then show ?case by simp
next
  case (Cons x xs)
  show ?case
  proof (cases "in_cls c x \<and> bt (Rx (Star c) # k) xs g = Some m")
    case True
    with Cons.IH obtain n where "n \<le> length xs" "\<forall>x\<in>set (take n xs). in_cls c x"
      "bt k (drop n xs) g = Some m" by blast
    with True show ?thesis by (intro exI[of _ "Suc n"]) simp
  next
    case False
    with Cons.prems have "bt k (x # xs) g = Some m"
      by (auto split: if_splits option.splits)
    then show ?thesis by (intro exI[of _ 0]) simp
  qed
qed

lemma bt_Plus_inv:
  "bt (Rx (Plus c) # k) s g = Some m \<Longrightarrow>
   \<exists>n\<le>length s. 0 < n \<and> (\<forall>x\<in>set (take n s). in_cls c x) \<and> bt k (drop n s) g = Some m"
proof (cases s)
  case Nil
  then show "bt (Rx (Plus c) # k) s g = Some m \<Longrightarrow> ?thesis" by simp
next
  case (Cons x xs)
  assume "bt (Rx (Plus c) # k) s g = Some m"
  with Cons have x: "in_cls c x" and "bt (Rx (Star c) # k) xs g = Some m"
    by (auto split: if_splits)
  from bt_Star_inv[OF this(2)] obtain n where "n \<le> length xs" "\<forall>x\<in>set (take n xs). in_cls c x"
      "bt k (drop n xs) g = Some m" by blast
  with x Cons show ?thesis by (intro exI[of _ "Suc n"]) simp
qed

lemma bt_keeps_group:
  "list_all (frame_free n) k \<Longrightarrow> bt k s g = Some (s', g') \<Longrightarrow> map_of g' n = map_of g n"
proof (induction k s g rule: bt.induct)
  case (6 a b k s g)
  then show ?case by (auto split: option.splits)
next
  case (8 c k x xs g)
  then show ?case by (cases "in_cls c x"; auto split: option.splits)
next
  case (12 c k x xs g)
  then show ?case by (cases "in_cls c x"; auto split: option.splits)
next
  case (17 r k s g)
  then show ?case by (auto split: option.splits)
qed (auto split: if_splits)

lemma bt_shorter: "bt k s g = Some (s', g') \<Longrightarrow> length s' \<le> length s"
proof (induction k s g rule: bt.induct)
  case (6 a b k s g)
  then show ?case by (auto split: option.splits)
next
  case (8 c k x xs g)
  then show ?case by (cases "in_cls c x"; auto split: option.splits)
next
  case (12 c k x xs g)
  then show ?case by (cases "in_cls c x"; auto split: option.splits)
next
  case (17 r k s g)
  then show ?case by (auto split: option.splits)
qed (auto split: if_splits)

subsection \<open>Score tokens are digits, and the parse raises on the long ones only\<close>

lemma qa_pattern_split:
  "qa_pattern = seqs ([lits ''Question:'', Star Space, Group 1 (LazyPlus Any), Star Space,
      Lit CHR ''\<newline>'', Star Space, lits ''Score:'', Star Space] @
     (Group 2 (Plus Digit) #
      [Star Space, Lit CHR ''\<newline>'', Star Space, lits ''Comment:'', Star Space,
      Group 3 (LazyPlus Any),
      Lookahead
        (Alt (seqs [Lit CHR ''\<newline>'', Star Space, lits ''Question:''])
          (Alt (seqs [Lit CHR ''\<newline>'', Star Space, Plus Range09, Lit CHR ''.''])
            EndZ))]))"
  by (simp add: qa_pattern_def)

lemma grp_free_lits: "grp_free n (lits l)"
  by (induction l) (simp_all add: lits_def)

lemma qa_match_score_digits:
  assumes "match_at qa_pattern s = Some (s', g)"
  shows "group g 2 \<noteq> [] \<and> (\<forall>c\<in>set (group g 2). is_digit c)"
proof -
  let ?post = "[Star Space, Lit CHR ''\<newline>'', Star Space, lits ''Comment:'', Star Space,
      Group 3 (LazyPlus Any),
      Lookahead
        (Alt (seqs [Lit CHR ''\<newline>'', Star Space, lits ''Question:''])
          (Alt (seqs [Lit CHR ''\<newline>'', Star Space, Plus Range09, Lit CHR ''.''])
            EndZ))]"
  from assms obtain s2 g2 where
    "bt [Rx (seqs (Group 2 (Plus Digit) # ?post))] s2 g2 = Some (s', g)"
    unfolding match_at_def qa_pattern_split using bt_seqs_through by blast
  then have "bt (Rx (Plus Digit) # Close 2 s2 # [Rx (seqs ?post)]) s2 g2 = Some (s', g)"
    by (simp add: seqs_def)
  from bt_Plus_inv[OF this] obtain n where n: "n \<le> length s2" "0 < n"
    "\<forall>x\<in>set (take n s2). in_cls Digit x"
    "bt (Close 2 s2 # [Rx (seqs ?post)]) (drop n s2) g2 = Some (s', g)" by blast
  from n(1,4) have "bt [Rx (seqs ?post)] (drop n s2) ((2, take n s2) # g2) = Some (s', g)"
    by simp
  from bt_keeps_group[of 2, OF _ this] have "map_of g 2 = Some (take n s2)"
    by (simp add: seqs_def grp_free_lits)
  with n(1,2,3) show ?thesis by (auto simp: group_def)
qed

lemma findall_all:
  "(\<forall>s s' g. match_at r s = Some (s', g) \<longrightarrow> P g) \<Longrightarrow> \<forall>g\<in>set (findall r t). P g"
proof (induction r t rule: findall.induct)
  case (1 r s)
  show ?case
  proof (cases "match_at r s")
    case None
    with 1 show ?thesis by (subst findall.simps) auto
  next
    case (Some m)
    obtain s' g where m: "m = (s', g)" by (cases m)
    have "P g" using 1(4) Some m by blast
    with 1 Some m show ?thesis by (subst findall.simps) auto
  qed
qed

lemma py_strip_id:
  "s \<noteq> [] \<Longrightarrow> \<not> is_space (hd s) \<Longrightarrow> \<not> is_space (last s) \<Longrightarrow> py_strip s = s"
proof -
  assume a: "s \<noteq> []" "\<not> is_space (hd s)" "\<not> is_space (last s)"
  then have "dropWhile is_space s = s" by (cases s) auto
  moreover from a have "dropWhile is_space (rev s) = rev s"
    by (cases "rev s") (auto simp: last_rev hd_rev)
  ultimately show ?thesis by (simp add: py_strip_def)
qed

lemma digit_not_space: "is_digit c \<Longrightarrow> \<not> is_space c"
  by (auto simp: is_digit_def is_space_def space_chars_def)

lemma digit_not_sign: "is_digit c \<Longrightarrow> c \<noteq> CHR ''-'' \<and> c \<noteq> CHR ''+'' \<and> c \<noteq> CHR ''_''"
  by (auto simp: is_digit_def)

lemma digits_grouped_digits: "ds \<noteq> [] \<Longrightarrow> \<forall>c\<in>set ds. is_digit c \<Longrightarrow> digits_grouped ds"
  by (induction ds rule: digits_grouped.induct) (auto simp: digit_not_sign)

lemma py_int_digits:
  assumes "ds \<noteq> []" "\<forall>c\<in>set ds. is_digit c"
  shows "py_int ds = (if length ds \<le> int_max_str_digits then Some (dec_value ds) else None)"
proof -
  from assms have "py_strip ds = ds"
    by (intro py_strip_id) (auto simp: digit_not_space)
  moreover from assms have "hd ds \<noteq> CHR ''-''" "hd ds \<noteq> CHR ''+''"
    using digit_not_sign by (cases ds; auto)+
  moreover from assms have "filter (\<lambda>c. c \<noteq> CHR ''_'') ds = ds"
    using digit_not_sign by (auto simp: filter_id_conv)
  ultimately show ?thesis using assms
    by (simp add: py_int_def Let_def digits_grouped_digits)
qed

lemma structured_qa_digits:
  "\<forall>(q, s, c)\<in>set ms. s \<noteq> [] \<and> (\<forall>x\<in>set s. is_digit x) \<Longrightarrow>
   structured_qa ms =
     (if list_all (\<lambda>(q, s, c). length s \<le> int_max_str_digits) ms
      then Inr (map (\<lambda>(q, s, c). (q_clean q, dec_value s, c_clean c)) ms)
      else Inl ValueError)"
proof (induction ms rule: structured_qa.induct)
  case 1
  then show ?case by simp
next
  case (2 q s c ms)
  then have s: "s \<noteq> []" "\<forall>x\<in>set s. is_digit x" by auto
  show ?case
  proof (cases "length s \<le> int_max_str_digits")
    case True
    with s have p: "py_int s = Some (dec_value s)" by (simp add: py_int_digits)
    from "2.IH"[OF p] "2.prems" p True show ?thesis by simp
  next
    case False
    with s have "py_int s = None" by (simp add: py_int_digits)
    with False show ?thesis by simp
  qed
qed

lemma qa_matches_digits:
  "\<forall>(q, s, c)\<in>set (qa_matches text). s \<noteq> [] \<and> (\<forall>x\<in>set s. is_digit x)"
  using findall_all[of qa_pattern "\<lambda>g. group g 2 \<noteq> [] \<and> (\<forall>c\<in>set (group g 2). is_digit c)" "text"]
    qa_match_score_digits
  by (auto simp: qa_matches_def)

lemma parse_full_report_cases:
  "parse_full_report text =
     (if list_all (\<lambda>(q, s, c). length s \<le> int_max_str_digits) (qa_matches text)
      then Inr (map (\<lambda>(q, s, c). (q_clean q, dec_value s, c_clean c)) (qa_matches text),
                remaining_text text)
      else Inl ValueError)"
  by (simp add: parse_full_report_def structured_qa_digits[OF qa_matches_digits])

lemma parse_full_report_Inr:
  "parse_full_report text = Inr (qa, rem) \<Longrightarrow>
   qa = map (\<lambda>(q, s, c). (q_clean q, dec_value s, c_clean c)) (qa_matches text)
   \<and> rem = remaining_text text"
  by (simp add: parse_full_report_cases split: if_splits)

lemma parse_full_report_Inl: "parse_full_report text = Inl e \<Longrightarrow> e = ValueError"
  by (simp add: parse_full_report_cases split: if_splits)

subsection \<open>The field check on a JSON object\<close>

lemma check_required_obj:
  "check_required fs (JObj kvs) = None \<or> (\<exists>msg. check_required fs (JObj kvs) = Some (Bad_request msg))"
  by (induction fs) auto

lemma check_required_present:
  "check_required fs (JObj kvs) = None \<Longrightarrow> f \<in> set fs \<Longrightarrow> f \<in> set (map fst kvs)"
  by (induction fs) (auto split: if_splits)

subsection \<open>Literal text, whitespace runs and the search for the marker\<close>

lemma ci_prefix_Nil [simp]: "ci_prefix [] s"
  by (simp add: ci_prefix_def)

lemma ci_prefix_Cons_Nil [simp]: "\<not> ci_prefix (c # l) []"
  by (simp add: ci_prefix_def)

lemma ci_prefix_Cons_Cons [simp]:
  "ci_prefix (c # l) (x # xs) = (lower x = lower c \<and> ci_prefix l xs)"
  by (auto simp: ci_prefix_def)

lemma bt_lits:
  "bt (Rx (lits l) # k) s g = (if ci_prefix l s then bt k (drop (length l) s) g else None)"
proof (induction l arbitrary: s)
  case Nil
  then show ?case by (simp add: lits_def)
next
  case (Cons c l)
  have "lits (c # l) = Seq (Lit c) (lits l)" by (simp add: lits_def)
  with Cons show ?case by (cases s) auto
qed

lemma bt_Star_skip:
  assumes "\<And>x xs. in_cls c x \<Longrightarrow> bt k (x # xs) g = None"
  shows "bt (Rx (Star c) # k) s g = bt k (dropWhile (in_cls c) s) g"
  using assms by (induction s) (auto split: option.splits)

lemma in_cls_Space: "in_cls Space = is_space"
  by (rule ext) simp

lemma space_lower_o: "is_space x \<Longrightarrow> lower x \<noteq> lower CHR ''O''"
  by (auto simp: is_space_def space_chars_def lower_def)

lemma match_at_split: "(match_at split_pattern s \<noteq> None) = marker_at s"
proof -
  have skip: "bt (Rx (Star Space) # Rx (seqs [lits ''Overall Evaluation:'']) # k) t g
        = bt (Rx (seqs [lits ''Overall Evaluation:'']) # k) (dropWhile is_space t) g" for k t g
    using bt_Star_skip[of Space "Rx (seqs [lits ''Overall Evaluation:'']) # k" g t]
    by (simp add: seqs_def bt_lits space_lower_o in_cls_Space)
  show ?thesis
    by (simp add: match_at_def split_pattern_def marker_at_def seqs_def bt_lits
        skip[unfolded seqs_def, simplified] numeral_2_eq_2 split: option.splits)
qed

lemma search_first_index: "search r s = first_index (\<lambda>t. match_at r t \<noteq> None) s"
  by (induction s) auto

lemma first_index_least:
  "first_index P s = Some i \<Longrightarrow> i \<le> length s \<and> P (drop i s) \<and> (\<forall>j<i. \<not> P (drop j s))"
proof (induction s arbitrary: i)
  case Nil
  then show ?case by (auto split: if_splits)
next
  case (Cons x xs)
  show ?case
  proof (cases "P (x # xs)")
    case True
    with Cons.prems show ?thesis by simp
  next
    case False
    with Cons.prems obtain i' where i': "i = Suc i'" "first_index P xs = Some i'" by auto
    from Cons.IH[OF i'(2)] False i'(1) show ?thesis
      by (auto simp: less_Suc_eq_0_disj)
  qed
qed

lemma first_index_none:
  "first_index P s = None \<Longrightarrow> \<forall>j\<le>length s. \<not> P (drop j s)"
proof (induction s)
  case Nil
  then show ?case by (auto split: if_splits)
next
  case (Cons x xs)
  then show ?case by (auto split: if_splits simp: le_Suc_eq drop_Cons')
qed

subsection \<open>Replacement of a fixed string\<close>

lemma py_replace_Nil: "old \<noteq> [] \<Longrightarrow> py_replace old new [] = []"
  by (subst py_replace.simps) simp

lemma py_replace_match:
  "old \<noteq> [] \<Longrightarrow> take (length old) s = old \<Longrightarrow>
   py_replace old new s = new @ py_replace old new (drop (length old) s)"
  by (subst py_replace.simps) auto

lemma py_replace_skip:
  "old \<noteq> [] \<Longrightarrow> take (length old) (x # xs) \<noteq> old \<Longrightarrow>
   py_replace old new (x # xs) = x # py_replace old new xs"
  by (subst py_replace.simps) simp

lemma py_replace_absent:
  "old \<noteq> [] \<Longrightarrow> \<not> is_substring old s \<Longrightarrow> py_replace old new s = s"
proof (induction s)
  case Nil
  then show ?case by (simp add: py_replace_Nil)
next
  case (Cons x xs)
  then show ?case by (simp add: py_replace_skip)
qed

lemma py_replace_char:
  "py_replace [a] [b] s = map (\<lambda>x. if x = a then b else x) s"
proof (induction s)
  case Nil
  then show ?case by (simp add: py_replace_Nil)
next
  case (Cons x xs)
  show ?case
  proof (cases "x = a")
    case True
    with Cons show ?thesis using py_replace_match[of "[a]" "x # xs" "[b]"] by simp
  next
    case False
    with Cons show ?thesis by (simp add: py_replace_skip)
  qed
qed

subsection \<open>The match of a well-formed block\<close>

lemma qa_pattern_tails: "qa_pattern = seqs ([lits ''Question:'', Star Space] @ qa_tail1)"
  by (simp add: qa_pattern_def qa_tail1_def qa_tail2_def qa_tail3_def comment_end_def)

lemma seqs_Nil: "seqs [] = Eps"
  by (simp add: seqs_def)

lemma seqs_Cons: "seqs (r # rs) = Seq r (seqs rs)"
  by (simp add: seqs_def)

lemma lower_nl: "(lower x = lower CHR ''\<newline>'') = (x = CHR ''\<newline>'')"
  by (auto simp: lower_def split: if_splits)

lemma nl_space: "is_space CHR ''\<newline>''"
  by (simp add: is_space_def space_chars_def)

lemma ci_prefix_self: "ci_prefix l (l @ s)"
  by (induction l) auto

lemma bt_lits_self: "bt (Rx (lits l) # k) (l @ s) g = bt k s g"
  by (simp add: bt_lits ci_prefix_self)

lemma bt_star_stop: "s = [] \<or> \<not> in_cls c (hd s) \<Longrightarrow> bt (Rx (Star c) # k) s g = bt k s g"
  by (cases s) auto

lemma bt_star_prefix:
  "\<forall>x\<in>set ws. in_cls c x \<Longrightarrow> bt (Rx (Star c) # k) s g = Some m \<Longrightarrow>
   bt (Rx (Star c) # k) (ws @ s) g = Some m"
  by (induction ws) auto

lemma bt_star_fail:
  assumes "\<And>x xs. x \<noteq> b \<Longrightarrow> bt k (x # xs) g = None"
    and "\<forall>x\<in>set u. x \<noteq> b" and "y \<noteq> b" and "\<not> in_cls c y"
  shows "bt (Rx (Star c) # k) (u @ y # t) g = None"
  using assms by (induction u) auto

lemma bt_star_back:
  assumes "\<forall>x\<in>set u. in_cls c x" and "in_cls c b" and "s = [] \<or> \<not> in_cls c (hd s)"
    and "bt k s g = None" and "bt k (b # s) g = Some m"
  shows "bt (Rx (Star c) # k) (u @ b # s) g = Some m"
proof -
  from assms(3,4) have "bt (Rx (Star c) # k) s g = None" by (simp add: bt_star_stop)
  with assms(2,5) have "bt (Rx (Star c) # k) (b # s) g = Some m" by simp
  from bt_star_prefix[OF assms(1) this] show ?thesis .
qed

lemma bt_lazy_here: "bt k s g = Some m \<Longrightarrow> bt (Rx (LazyStar c) # k) s g = Some m"
  by (cases s) auto

lemma bt_lazy_skip:
  "(\<And>i. i < length p \<Longrightarrow> bt k (drop i p @ s) g = None) \<Longrightarrow>
   bt (Rx (LazyStar Any) # k) (p @ s) g = bt (Rx (LazyStar Any) # k) s g"
proof (induction p)
  case Nil
  then show ?case by simp
next
  case (Cons x p)
  from Cons.prems[of 0] have "bt k (x # p @ s) g = None" by simp
  moreover have "bt (Rx (LazyStar Any) # k) (p @ s) g = bt (Rx (LazyStar Any) # k) s g"
    using Cons.prems[of "Suc i" for i] by (intro Cons.IH) auto
  ultimately show ?case by simp
qed

lemma comment_end_fail: "y \<noteq> CHR ''\<newline>'' \<Longrightarrow> bt [Rx comment_end] (y # t) g = None"
  by (simp add: comment_end_def seqs_Cons lower_nl)

lemma comment_end_Nil: "bt [Rx comment_end] [] g \<noteq> None"
  by (simp add: comment_end_def seqs_Cons)

lemma not_space_C: "\<not> is_space CHR ''C''" "\<not> is_space CHR ''S''" "\<not> is_space CHR ''Q''"
  by (simp_all add: is_space_def space_chars_def)

lemma space_sp: "is_space CHR '' ''"
  by (simp add: is_space_def space_chars_def)

lemma nl_not_digit: "\<not> is_digit CHR ''\<newline>''"
  by (simp add: is_digit_def)

lemma tail2_match:
  assumes d: "d \<noteq> []" "\<forall>x\<in>set d. is_digit x"
    and c: "\<exists>x\<in>set c. \<not> is_space x"
    and t3: "\<And>g. bt [Rx (seqs qa_tail3)] (dropWhile is_space c @ rest) g = Some (s', (3, c3) # g)"
  shows "bt [Rx (seqs qa_tail2)] (d @ ''\<newline>Comment: '' @ c @ rest) g
         = Some (s', (3, c3) # (2, d) # g)"
proof -
  let ?c1 = "dropWhile is_space c"
  let ?wc = "takeWhile is_space c"
  let ?R = "Some (s', (3, c3) # (2, d) # g)"
  let ?g2 = "(2, d) # g"
  from c have c1: "?c1 \<noteq> []" "\<not> is_space (hd ?c1)"
    by (auto simp: dropWhile_eq_Nil_conv hd_dropWhile)
  have A: "bt [Rx (seqs qa_tail3)] (?c1 @ rest) ?g2 = ?R"
    by (rule t3)
  have A': "bt (Rx (Star Space) # [Rx (seqs qa_tail3)]) (?c1 @ rest) ?g2 = ?R"
    using A c1 by (subst bt_star_stop) auto
  have "bt (Rx (Star Space) # [Rx (seqs qa_tail3)]) ((CHR '' '' # ?wc) @ (?c1 @ rest)) ?g2 = ?R"
  proof (rule bt_star_prefix[where ws = "CHR '' '' # ?wc"])
    show "\<forall>x\<in>set (CHR '' '' # ?wc). in_cls Space x"
      by (auto simp: space_sp dest: set_takeWhileD)
  qed (rule A')
  then have B: "bt (Rx (Star Space) # [Rx (seqs qa_tail3)]) (CHR '' '' # c @ rest) ?g2 = ?R"
    by (simp flip: append_assoc)
  let ?k5 = "Rx (seqs (Lit CHR ''\<newline>'' # Star Space # lits ''Comment:'' # Star Space # qa_tail3))"
  have C: "bt [Rx (seqs (lits ''Comment:'' # Star Space # qa_tail3))] (''Comment:'' @ CHR '' '' # c @ rest) ?g2 = ?R"
    unfolding seqs_Cons[of "lits ''Comment:''"] seqs_Cons[of "Star Space"] bt.simps(5) bt_lits_self
    using B .
  have D: "bt [Rx (seqs (Star Space # lits ''Comment:'' # Star Space # qa_tail3))] (''Comment:'' @ CHR '' '' # c @ rest) ?g2 = ?R"
    unfolding seqs_Cons[of "Star Space" "lits ''Comment:'' # Star Space # qa_tail3"] bt.simps(5)
    using C by (subst bt_star_stop) (simp_all add: not_space_C)
  have E: "bt [?k5] (CHR ''\<newline>'' # ''Comment:'' @ CHR '' '' # c @ rest) ?g2 = ?R"
    unfolding seqs_Cons[of "Lit CHR ''\<newline>''"] using D by simp
  have E0: "bt [?k5] (''Comment:'' @ CHR '' '' # c @ rest) ?g2 = None"
    unfolding seqs_Cons[of "Lit CHR ''\<newline>''"] by (simp add: lower_def)
  have F: "bt (Rx (Star Space) # [?k5]) ([] @ CHR ''\<newline>'' # ''Comment:'' @ CHR '' '' # c @ rest) ?g2 = ?R"
    using E0 E by (intro bt_star_back) (simp_all add: nl_space not_space_C)
  have G: "bt (Close 2 (d @ ''\<newline>Comment: '' @ c @ rest) # [Rx (seqs (Star Space # Lit CHR ''\<newline>'' #
        Star Space # lits ''Comment:'' # Star Space # qa_tail3))]) (''\<newline>Comment: '' @ c @ rest) g = ?R"
    using F unfolding seqs_Cons[of "Star Space" "Lit CHR ''\<newline>'' # _"] by simp
  from d obtain x d' where dd: "d = x # d'" by (cases d) auto
  let ?K = "Close 2 (d @ ''\<newline>Comment: '' @ c @ rest) # [Rx (seqs (Star Space # Lit CHR ''\<newline>'' #
        Star Space # lits ''Comment:'' # Star Space # qa_tail3))]"
  have H: "bt (Rx (Star Digit) # ?K) (''\<newline>Comment: '' @ c @ rest) g = ?R"
    using G by (subst bt_star_stop) (simp_all add: nl_not_digit)
  have "bt (Rx (Star Digit) # ?K) (d' @ (''\<newline>Comment: '' @ c @ rest)) g = ?R"
  proof (rule bt_star_prefix[where ws = d'])
    show "\<forall>x\<in>set d'. in_cls Digit x" using d(2) dd by auto
  qed (rule H)
  then have "bt (Rx (Plus Digit) # ?K) (d @ ''\<newline>Comment: '' @ c @ rest) g = ?R"
    using d(2) dd by simp
  then show ?thesis
    by (simp add: qa_tail2_def seqs_Cons[of "Group 2 (Plus Digit)"])
qed

lemma tail1_match:
  assumes qs: "qs \<noteq> []" "\<not> is_space (last qs)" "CHR ''\<newline>'' \<notin> set qs"
    and tw: "\<forall>x\<in>set tw. is_space x \<and> x \<noteq> CHR ''\<newline>''"
    and d: "d \<noteq> []" "\<forall>x\<in>set d. is_digit x"
    and c: "\<exists>x\<in>set c. \<not> is_space x"
    and t3: "\<And>g. bt [Rx (seqs qa_tail3)] (dropWhile is_space c @ rest) g = Some (s', (3, c3) # g)"
  shows "bt [Rx (seqs qa_tail1)]
           (qs @ tw @ ''\<newline>Score: '' @ d @ ''\<newline>Comment: '' @ c @ rest) g
         = Some (s', (3, c3) # (2, d) # (1, qs) # g)"
proof -
  let ?T2 = "d @ ''\<newline>Comment: '' @ c @ rest"
  let ?g1 = "(1, qs) # g"
  let ?R = "Some (s', (3, c3) # (2, d) # (1, qs) # g)"
  let ?s0 = "qs @ tw @ ''\<newline>Score: '' @ ?T2"
  have a: "bt [Rx (seqs qa_tail2)] ?T2 ?g1 = ?R"
    using d c t3 by (rule tail2_match)
  from d have hd: "\<not> is_space (hd (d @ ''\<newline>Comment: '' @ c @ rest))"
    by (cases d) (auto simp: digit_not_space)
  have a': "bt (Rx (Star Space) # [Rx (seqs qa_tail2)]) ?T2 ?g1 = ?R"
    using a hd by (subst bt_star_stop) auto
  have "bt (Rx (Star Space) # [Rx (seqs qa_tail2)]) ([CHR '' ''] @ ?T2) ?g1 = ?R"
  proof (rule bt_star_prefix[where ws = "[CHR '' '']"])
    show "\<forall>x\<in>set [CHR '' '']. in_cls Space x" by (simp add: space_sp)
  qed (rule a')
  then have b: "bt (Rx (Star Space) # [Rx (seqs qa_tail2)]) (CHR '' '' # ?T2) ?g1 = ?R"
    by simp
  have c': "bt [Rx (seqs (lits ''Score:'' # Star Space # qa_tail2))] (''Score:'' @ CHR '' '' # ?T2) ?g1 = ?R"
    unfolding seqs_Cons[of "lits ''Score:''"] seqs_Cons[of "Star Space"] bt.simps(5) bt_lits_self
    using b .
  have d': "bt [Rx (seqs (Star Space # lits ''Score:'' # Star Space # qa_tail2))] (''Score:'' @ CHR '' '' # ?T2) ?g1 = ?R"
    unfolding seqs_Cons[of "Star Space" "lits ''Score:'' # Star Space # qa_tail2"] bt.simps(5)
    using c' by (subst bt_star_stop) (simp_all add: not_space_C)
  let ?k5 = "Rx (seqs (Lit CHR ''\<newline>'' # Star Space # lits ''Score:'' # Star Space # qa_tail2))"
  have e: "bt [?k5] (CHR ''\<newline>'' # ''Score:'' @ CHR '' '' # ?T2) ?g1 = ?R"
    unfolding seqs_Cons[of "Lit CHR ''\<newline>''"] using d' by simp
  have k5_fail: "bt [?k5] (x # xs) g' = None" if "x \<noteq> CHR ''\<newline>''" for x xs g'
    unfolding seqs_Cons[of "Lit CHR ''\<newline>''"] using that by (simp add: lower_nl)
  have f: "bt (Rx (Star Space) # [?k5]) (tw @ CHR ''\<newline>'' # ''Score:'' @ CHR '' '' # ?T2) ?g1 = ?R"
  proof (rule bt_star_back)
    show "\<forall>x\<in>set tw. in_cls Space x" using tw by simp
    show "in_cls Space CHR ''\<newline>''" by (simp add: nl_space)
    show "''Score:'' @ CHR '' '' # ?T2 = [] \<or> \<not> in_cls Space (hd (''Score:'' @ CHR '' '' # ?T2))"
      by (simp add: not_space_C)
    show "bt [?k5] (''Score:'' @ CHR '' '' # ?T2) ?g1 = None"
      using k5_fail[of "CHR ''S''"] by simp
    show "bt [?k5] (CHR ''\<newline>'' # ''Score:'' @ CHR '' '' # ?T2) ?g1 = ?R" by (rule e)
  qed
  let ?K = "[Close 1 ?s0, Rx (seqs (Star Space # Lit CHR ''\<newline>'' # Star Space # lits ''Score:'' # Star Space # qa_tail2))]"
  have here: "bt ?K (tw @ ''\<newline>Score: '' @ ?T2) g = ?R"
    using f unfolding seqs_Cons[of "Star Space" "Lit CHR ''\<newline>'' # _"] by simp
  from qs(1) obtain x p where xp: "qs = x # p" by (cases qs) auto
  have fail: "bt ?K (drop i p @ tw @ ''\<newline>Score: '' @ ?T2) g = None" if i: "i < length p" for i
  proof -
    let ?t = "drop i p"
    from i have ne: "?t \<noteq> []" by simp
    with xp i have "last ?t = last qs" by (cases p) auto
    with qs(2) ne have ex: "\<exists>y\<in>set ?t. \<not> is_space y" by (metis last_in_set)
    let ?u = "takeWhile is_space ?t"
    let ?v = "dropWhile is_space ?t"
    from ex obtain y t' where v: "?v = y # t'" by (cases ?v) (auto simp: dropWhile_eq_Nil_conv)
    then have y: "\<not> is_space y" by (metis hd_dropWhile list.sel(1) list.distinct(1))
    have sub: "set ?t \<subseteq> set qs" using xp by (auto dest: in_set_dropD)
    have "y \<in> set ?t" using v by (metis list.set_intros(1) set_dropWhileD)
    with sub qs(3) have ynl: "y \<noteq> CHR ''\<newline>''" by auto
    have unl: "\<forall>x\<in>set ?u. x \<noteq> CHR ''\<newline>''"
      using sub qs(3) by (auto dest: set_takeWhileD)
    have dec: "?t = ?u @ y # t'" using v by (metis takeWhile_dropWhile_id)
    have "bt (Rx (Star Space) # [?k5]) (?u @ y # (t' @ tw @ ''\<newline>Score: '' @ ?T2)) g' = None" for g'
      using k5_fail unl ynl y by (intro bt_star_fail[where b = "CHR ''\<newline>''"]) auto
    then have "bt (Rx (Star Space) # [?k5]) (?t @ tw @ ''\<newline>Score: '' @ ?T2) g' = None" for g'
      by (subst dec) simp
    then show ?thesis
      unfolding seqs_Cons[of "Star Space" "Lit CHR ''\<newline>'' # _"] by simp
  qed
  have "bt [Rx (seqs qa_tail1)] ?s0 g = bt (Rx (LazyPlus Any) # ?K) ?s0 g"
    unfolding qa_tail1_def append_Cons append_Nil seqs_Cons[of "Group 1 (LazyPlus Any)"]
      bt.simps(5) bt.simps(15) ..
  also have "\<dots> = bt (Rx (LazyStar Any) # ?K) (p @ tw @ ''\<newline>Score: '' @ ?T2) g"
    by (simp add: xp)
  also have "\<dots> = bt (Rx (LazyStar Any) # ?K) (tw @ ''\<newline>Score: '' @ ?T2) g"
    by (rule bt_lazy_skip) (rule fail)
  also have "\<dots> = ?R"
    by (rule bt_lazy_here) (rule here)
  finally show ?thesis .
qed

lemma strip_decomp:
  assumes "\<exists>x\<in>set q. \<not> is_space x"
  shows "\<exists>wq tw. q = wq @ py_strip q @ tw \<and> dropWhile is_space q = py_strip q @ tw
           \<and> (\<forall>x\<in>set wq. is_space x) \<and> (\<forall>x\<in>set tw. is_space x)
           \<and> py_strip q \<noteq> [] \<and> \<not> is_space (hd (py_strip q)) \<and> \<not> is_space (last (py_strip q))"
proof -
  let ?q1 = "dropWhile is_space q"
  let ?r = "rev ?q1"
  from assms have q1: "?q1 \<noteq> []" "\<not> is_space (hd ?q1)"
    by (auto simp: dropWhile_eq_Nil_conv hd_dropWhile)
  then have "\<exists>x\<in>set ?r. \<not> is_space x" by (metis hd_in_set set_rev)
  then have r: "dropWhile is_space ?r \<noteq> []" "\<not> is_space (hd (dropWhile is_space ?r))"
    by (auto simp: dropWhile_eq_Nil_conv hd_dropWhile)
  have s: "py_strip q = rev (dropWhile is_space ?r)" by (simp add: py_strip_def)
  have "?r = takeWhile is_space ?r @ dropWhile is_space ?r" by simp
  then have "rev ?r = rev (dropWhile is_space ?r) @ rev (takeWhile is_space ?r)"
    by (metis rev_append)
  then have q1d: "?q1 = py_strip q @ rev (takeWhile is_space ?r)" by (simp add: s)
  have "q = takeWhile is_space q @ ?q1" by simp
  with q1d have "q = takeWhile is_space q @ py_strip q @ rev (takeWhile is_space ?r)" by simp
  moreover have "\<forall>x\<in>set (takeWhile is_space q). is_space x" by (auto dest: set_takeWhileD)
  moreover have "\<forall>x\<in>set (rev (takeWhile is_space ?r)). is_space x" by (auto dest: set_takeWhileD)
  moreover from r(1) have ne: "py_strip q \<noteq> []" by (simp add: s)
  moreover from r have "\<not> is_space (last (py_strip q))" by (simp add: s last_rev)
  moreover from q1d ne q1(2) have "\<not> is_space (hd (py_strip q))" by (metis hd_append2)
  ultimately show ?thesis using q1d by blast
qed

lemma qa_match_block:
  assumes wf: "block_shape (q, d, c)"
    and t3: "\<And>g. bt [Rx (seqs qa_tail3)] (dropWhile is_space c @ rest) g = Some (s', (3, c3) # g)"
  shows "match_at qa_pattern (block_text (q, d, c) @ rest)
         = Some (s', [(3, c3), (2, d), (1, py_strip q)])"
proof -
  from wf have q: "\<exists>x\<in>set q. \<not> is_space x" "CHR ''\<newline>'' \<notin> set q"
    and d: "d \<noteq> []" "\<forall>x\<in>set d. is_digit x"
    and c: "\<exists>x\<in>set c. \<not> is_space x"
    by (auto simp: block_shape_def list_ex_iff list_all_iff)
  define qs where "qs = py_strip q"
  from strip_decomp[OF q(1)] obtain wq tw where dec: "q = wq @ qs @ tw"
    and wq: "\<forall>x\<in>set wq. is_space x" and tw: "\<forall>x\<in>set tw. is_space x"
    and qs: "qs \<noteq> []" "\<not> is_space (hd qs)" "\<not> is_space (last qs)"
    unfolding qs_def by blast
  let ?R = "Some (s', [(3, c3), (2, d), (1, qs)])"
  let ?T1 = "qs @ tw @ ''\<newline>Score: '' @ d @ ''\<newline>Comment: '' @ c @ rest"
  from dec q(2) have nl: "CHR ''\<newline>'' \<notin> set qs" "\<forall>x\<in>set tw. x \<noteq> CHR ''\<newline>''"
    by auto
  from tw nl(2) have tw': "\<forall>x\<in>set tw. is_space x \<and> x \<noteq> CHR ''\<newline>''" by simp
  have a: "bt [Rx (seqs qa_tail1)] ?T1 [] = ?R"
    using qs(1,3) nl(1) tw' d c t3 by (rule tail1_match)
  have a': "bt (Rx (Star Space) # [Rx (seqs qa_tail1)]) ?T1 [] = ?R"
    using a qs by (subst bt_star_stop) auto
  have b: "bt (Rx (Star Space) # [Rx (seqs qa_tail1)]) ((CHR '' '' # wq) @ ?T1) [] = ?R"
  proof (rule bt_star_prefix[where ws = "CHR '' '' # wq"])
    show "\<forall>x\<in>set (CHR '' '' # wq). in_cls Space x" using wq by (simp add: space_sp)
  qed (rule a')
  have t: "block_text (q, d, c) @ rest = ''Question:'' @ ((CHR '' '' # wq) @ ?T1)"
    by (simp add: block_text_def dec)
  have "bt [Rx (seqs ([lits ''Question:'', Star Space] @ qa_tail1))]
          (''Question:'' @ ((CHR '' '' # wq) @ ?T1)) [] = ?R"
    unfolding append_Cons[of "lits ''Question:''"] append_Cons[of "Star Space"]
      append_Nil[of qa_tail1] seqs_Cons[of "lits ''Question:''"] seqs_Cons[of "Star Space"]
      bt.simps(5) bt_lits_self
    by (rule b)
  then show ?thesis
    unfolding match_at_def qa_pattern_tails t qs_def .
qed

lemma comment_end_question:
  "bt [Rx comment_end] (CHR ''\<newline>'' # ''Question:'' @ t) g \<noteq> None"
  by (simp add: comment_end_def seqs_Cons seqs_Nil bt_lits not_space_C lower_def)

lemma qa_no_match_nl: "match_at qa_pattern (CHR ''\<newline>'' # t) = None"
  by (simp add: match_at_def qa_pattern_tails seqs_Cons bt_lits lower_def)

lemma qa_no_match_Nil: "match_at qa_pattern [] = None"
  by (simp add: match_at_def qa_pattern_tails seqs_Cons bt_lits)

lemma narrative_starts:
  "bs \<noteq> [] \<Longrightarrow> \<exists>t. narrative bs = ''Question:'' @ t"
  by (induction bs rule: narrative.induct) (auto simp: block_text_def)

lemma bt_none_caps: "bt k s g = None \<Longrightarrow> bt k s g' = None"
proof (induction k s g arbitrary: g' rule: bt.induct)
  case (1 s g)
  then show ?case by simp
next
  case (2 c k g)
  show ?case by simp
next
  case (3 c k x xs g)
  show ?case
  proof (cases "lower x = lower c")
    case True
    with "3.prems" have "bt k xs g = None" by simp
    from "3.IH"[OF True this] True show ?thesis by simp
  next
    case False
    then show ?thesis by simp
  qed
next
  case (4 k s g)
  from "4.prems" have "bt k s g = None" by simp
  from "4.IH"[OF this] show ?case by simp
next
  case (5 a b k s g)
  from "5.prems" have "bt (Rx a # Rx b # k) s g = None" by simp
  from "5.IH"[OF this] show ?case by simp
next
  case (6 a b k s g)
  from "6.prems" have a: "bt (Rx a # k) s g = None" and b: "bt (Rx b # k) s g = None"
    by (auto split: option.splits)
  from "6.IH"(1)[OF a] "6.IH"(2)[OF a b] show ?case by simp
next
  case (7 c k g)
  from "7.prems" have "bt k [] g = None" by simp
  from "7.IH"[OF this] show ?case by simp
next
  case (8 c k x xs g)
  show ?case
  proof (cases "in_cls c x")
    case True
    with "8.prems" have a: "bt (Rx (Star c) # k) xs g = None" and b: "bt k (x # xs) g = None"
      by (auto split: option.splits)
    from "8.IH"(1)[OF True a] "8.IH"(2)[OF True a b] True show ?thesis by simp
  next
    case False
    with "8.prems" have b: "bt k (x # xs) g = None" by simp
    from "8.IH"(3)[OF False b] False show ?thesis by simp
  qed
next
  case (9 c k g)
  show ?case by simp
next
  case (10 c k x xs g)
  show ?case
  proof (cases "in_cls c x")
    case True
    with "10.prems" have "bt (Rx (Star c) # k) xs g = None" by simp
    from "10.IH"[OF True this] True show ?thesis by simp
  next
    case False
    then show ?thesis by simp
  qed
next
  case (11 c k g)
  from "11.prems" have "bt k [] g = None" by simp
  from "11.IH"[OF this] show ?case by simp
next
  case (12 c k x xs g)
  from "12.prems" have a: "bt k (x # xs) g = None"
    by (auto split: option.splits)
  note a' = "12.IH"(1)[OF a]
  show ?case
  proof (cases "in_cls c x")
    case True
    with "12.prems" a have b: "bt (Rx (LazyStar c) # k) xs g = None" by simp
    from "12.IH"(2)[OF a True b] a' True show ?thesis by simp
  next
    case False
    with a' show ?thesis by simp
  qed
next
  case (13 c k g)
  show ?case by simp
next
  case (14 c k x xs g)
  show ?case
  proof (cases "in_cls c x")
    case True
    with "14.prems" have "bt (Rx (LazyStar c) # k) xs g = None" by simp
    from "14.IH"[OF True this] True show ?thesis by simp
  next
    case False
    then show ?thesis by simp
  qed
next
  case (15 n r k s g)
  from "15.prems" have "bt (Rx r # Close n s # k) s g = None" by simp
  from "15.IH"[OF this] show ?case by simp
next
  case (16 n s0 k s g)
  from "16.prems" have "bt k s ((n, take (length s0 - length s) s0) # g) = None" by simp
  from "16.IH"[OF this] show ?case by simp
next
  case (17 r k s g)
  show ?case
  proof (cases "bt [Rx r] s g")
    case None
    from "17.IH"(1)[OF None] show ?thesis by simp
  next
    case (Some m)
    with "17.prems" have "bt k s g = None" by simp
    from "17.IH"(2)[OF Some this] show ?thesis by (simp split: option.splits)
  qed
next
  case (18 k g)
  from "18.prems" have "bt k [] g = None" by simp
  from "18.IH"[OF this] show ?case by simp
next
  case (19 k x xs g)
  show ?case by simp
qed

lemma lazy_comment_first:
  assumes la: "\<And>g. bt [Rx comment_end] s g \<noteq> None"
  shows "\<exists>u1 u2. u = u1 @ u2 \<and>
     (\<forall>g. bt (Rx (LazyStar Any) # [Close 3 s0, Rx (seqs [Lookahead comment_end])]) (u @ s) g
          = Some (u2 @ s, (3, take (length s0 - length (u2 @ s)) s0) # g))"
proof (induction u)
  case Nil
  have "bt [Close 3 s0, Rx (seqs [Lookahead comment_end])] s g
          = Some (s, (3, take (length s0 - length s) s0) # g)" for g
  proof -
    let ?g3 = "(3, take (length s0 - length s) s0) # g"
    from la[of ?g3] obtain m where "bt [Rx comment_end] s ?g3 = Some m" by auto
    then show ?thesis by (simp add: seqs_Cons seqs_Nil)
  qed
  then have "bt (Rx (LazyStar Any) # [Close 3 s0, Rx (seqs [Lookahead comment_end])]) s g
          = Some (s, (3, take (length s0 - length s) s0) # g)" for g
    by (rule bt_lazy_here)
  then show ?case by simp
next
  case (Cons x u)
  let ?K = "[Close 3 s0, Rx (seqs [Lookahead comment_end])]"
  show ?case
  proof (cases "bt [Rx comment_end] (x # u @ s) [] = None")
    case True
    then have n: "bt [Rx comment_end] (x # u @ s) g = None" for g by (rule bt_none_caps)
    from Cons obtain u1 u2 where ps: "u = u1 @ u2"
      "\<And>g. bt (Rx (LazyStar Any) # ?K) (u @ s) g
          = Some (u2 @ s, (3, take (length s0 - length (u2 @ s)) s0) # g)" by blast
    have "bt (Rx (LazyStar Any) # ?K) ((x # u) @ s) g
          = Some (u2 @ s, (3, take (length s0 - length (u2 @ s)) s0) # g)" for g
      using ps(2)[of g] by (simp add: seqs_Cons seqs_Nil n)
    with ps(1) show ?thesis by (intro exI[of _ "x # u1"] exI[of _ u2]) simp
  next
    case False
    have ne: "bt [Rx comment_end] (x # u @ s) g \<noteq> None" for g
    proof
      assume "bt [Rx comment_end] (x # u @ s) g = None"
      then have "bt [Rx comment_end] (x # u @ s) [] = None" by (rule bt_none_caps)
      with False show False by simp
    qed
    have "bt (Rx (LazyStar Any) # ?K) ((x # u) @ s) g
          = Some ((x # u) @ s, (3, take (length s0 - length ((x # u) @ s)) s0) # g)" for g
    proof -
      let ?g3 = "(3, take (length s0 - length ((x # u) @ s)) s0) # g"
      from ne[of ?g3] obtain m where "bt [Rx comment_end] (x # u @ s) ?g3 = Some m" by auto
      then show ?thesis by (simp add: seqs_Cons seqs_Nil)
    qed
    then show ?thesis by (intro exI[of _ "[]"] exI[of _ "x # u"]) simp
  qed
qed

lemma tail3_general:
  assumes "b0 \<noteq> []" and "CHR ''\<newline>'' \<notin> set b0"
    and la: "\<And>g. bt [Rx comment_end] rest g \<noteq> None"
  shows "\<exists>u1 u2. u = u1 @ u2 \<and>
           (\<forall>g. bt [Rx (seqs qa_tail3)] (b0 @ u @ rest) g = Some (u2 @ rest, (3, b0 @ u1) # g))"
proof -
  from assms(1) obtain x t where b0: "b0 = x # t" by (cases b0) auto
  let ?s0 = "b0 @ u @ rest"
  let ?K = "[Close 3 ?s0, Rx (seqs [Lookahead comment_end])]"
  from lazy_comment_first[of rest u ?s0, OF la] obtain u1 u2 where ps: "u = u1 @ u2"
    "\<And>g. bt (Rx (LazyStar Any) # ?K) (u @ rest) g
       = Some (u2 @ rest, (3, take (length ?s0 - length (u2 @ rest)) ?s0) # g)" by blast
  from ps(1) have tk: "take (length ?s0 - length (u2 @ rest)) ?s0 = b0 @ u1" by simp
  have fail: "bt ?K (drop i t @ u @ rest) g = None" if "i < length t" for i g
  proof -
    from that obtain y v where yv: "drop i t = y # v" by (cases "drop i t") auto
    then have "y \<in> set t" by (metis in_set_dropD list.set_intros(1))
    with assms(2) b0 have "y \<noteq> CHR ''\<newline>''" by auto
    then show ?thesis by (simp add: yv seqs_Cons seqs_Nil comment_end_fail)
  qed
  have "bt [Rx (seqs qa_tail3)] ?s0 g = Some (u2 @ rest, (3, b0 @ u1) # g)" for g
  proof -
    have "bt [Rx (seqs qa_tail3)] ?s0 g = bt (Rx (LazyStar Any) # ?K) (t @ (u @ rest)) g"
      by (simp add: qa_tail3_def seqs_Cons seqs_Nil b0)
    also have "\<dots> = bt (Rx (LazyStar Any) # ?K) (u @ rest) g"
      by (rule bt_lazy_skip) (rule fail)
    also have "\<dots> = Some (u2 @ rest, (3, b0 @ u1) # g)"
      using ps(2)[of g] unfolding tk .
    finally show ?thesis .
  qed
  with ps(1) show ?thesis by blast
qed

lemma first_index_suffix: "first_index P (p @ s) = None \<Longrightarrow> first_index P s = None"
  by (induction p) (auto split: if_splits)

lemma qa_match_question: "match_at qa_pattern s \<noteq> None \<Longrightarrow> ci_prefix ''Question:'' s"
  by (simp add: match_at_def qa_pattern_tails seqs_Cons[of "lits ''Question:''"] bt_lits
      split: if_splits)

lemma qa_no_match: "\<not> ci_prefix ''Question:'' s \<Longrightarrow> match_at qa_pattern s = None"
  using qa_match_question by blast

lemma findall_skip:
  "(\<And>i. i < length w \<Longrightarrow> match_at r (drop i w @ s) = None) \<Longrightarrow>
   findall r (w @ s) = findall r s"
proof (induction w)
  case Nil
  then show ?case by simp
next
  case (Cons x w)
  from Cons.prems[of 0] have n: "match_at r (x # w @ s) = None" by simp
  have "findall r (w @ s) = findall r s"
    using Cons.prems[of "Suc i" for i] by (intro Cons.IH) auto
  with n show ?case by (subst findall.simps) simp
qed

lemma ci_prefix_append_cases:
  "ci_prefix p (w @ x # t) \<Longrightarrow> ci_prefix p w \<or> (\<exists>c\<in>set p. lower x = lower c)"
proof (induction p arbitrary: w)
  case Nil
  then show ?case by simp
next
  case (Cons c p)
  then show ?case by (cases w) auto
qed

lemma ci_prefix_longer: "ci_prefix p w \<Longrightarrow> ci_prefix p (w @ t)"
proof (induction p arbitrary: w)
  case Nil
  then show ?case by simp
next
  case (Cons c p)
  then show ?case by (cases w) auto
qed

lemma marker_no_nl: "\<forall>c\<in>set ''Question:''. lower CHR ''\<newline>'' \<noteq> lower c"
  by (auto simp: lower_nl eq_commute[of "lower CHR ''\<newline>''"])

lemma space_lower_Q: "is_space x \<Longrightarrow> lower x \<noteq> lower CHR ''Q''"
  by (auto simp: is_space_def space_chars_def lower_def)

lemma space_no_marker: "is_space x \<Longrightarrow> \<not> ci_prefix ''Question:'' (x # t)"
  by (simp add: space_lower_Q)

lemma no_marker_drop: "no_marker c \<Longrightarrow> \<not> ci_prefix ''Question:'' (drop j c)"
proof (cases "j \<le> length c")
  case True
  assume "no_marker c"
  with first_index_none[of "ci_prefix ''Question:''" c] True show ?thesis
    by (simp add: no_marker_def)
next
  case False
  then show ?thesis by simp
qed

lemma py_strip_trail:
  assumes "body \<noteq> []" "\<not> is_space (hd body)" "\<not> is_space (last body)"
    and "\<forall>x\<in>set u. is_space x"
  shows "py_strip (body @ u) = body"
proof -
  from assms(1,2) have "dropWhile is_space (body @ u) = body @ u" by (cases body) auto
  moreover from assms(4) have "dropWhile is_space (rev u @ rev body) = dropWhile is_space (rev body)"
    by (simp add: dropWhile_append)
  moreover from assms(1,3) have "dropWhile is_space (rev body) = rev body"
    by (cases "rev body") (auto simp: last_rev hd_rev)
  ultimately show ?thesis by (simp add: py_strip_def)
qed

lemma py_replace_nl_id:
  "CHR ''\<newline>'' \<notin> set s \<Longrightarrow> py_replace ''\<newline>'' '' '' s = s"
proof -
  assume a: "CHR ''\<newline>'' \<notin> set s"
  then have "map (\<lambda>x. if x = CHR ''\<newline>'' then CHR '' '' else x) s = s"
    by (intro map_idI) auto
  then show ?thesis by (simp add: py_replace_char)
qed

lemma block_step:
  assumes sh: "block_shape (q, d, c)"
    and la: "\<And>g. bt [Rx comment_end] rest g \<noteq> None"
    and r: "rest = [] \<or> (\<exists>t. rest = CHR ''\<newline>'' # t)"
  shows "\<exists>s' c3. match_at qa_pattern (block_text (q, d, c) @ rest)
                     = Some (s' @ rest, [(3, c3), (2, d), (1, py_strip q)])
           \<and> length s' \<le> length c
           \<and> (CHR ''\<newline>'' \<notin> set (py_strip c) \<longrightarrow> c_clean c3 = py_strip c)
           \<and> (\<forall>i<length s'. match_at qa_pattern (drop i s' @ rest) = None)"
proof -
  from sh have c: "\<exists>x\<in>set c. \<not> is_space x"
    and cm: "CHR ''\<newline>'' \<notin> set (py_strip c) \<or> no_marker c"
    by (auto simp: block_shape_def list_ex_iff)
  define body where "body = py_strip c"
  from strip_decomp[OF c] obtain wc tw where dec: "c = wc @ body @ tw"
    and dw: "dropWhile is_space c = body @ tw"
    and tw: "\<forall>x\<in>set tw. is_space x"
    and body: "body \<noteq> []" "\<not> is_space (hd body)" "\<not> is_space (last body)"
    unfolding body_def by blast
  show ?thesis
  proof (cases "CHR ''\<newline>'' \<in> set body")
    case False
    from tail3_general[OF body(1) False la, of tw] obtain u1 u2 where u: "tw = u1 @ u2"
      and t3: "\<And>g. bt [Rx (seqs qa_tail3)] (body @ tw @ rest) g
                 = Some (u2 @ rest, (3, body @ u1) # g)" by blast
    have t3': "bt [Rx (seqs qa_tail3)] (dropWhile is_space c @ rest) g
                 = Some (u2 @ rest, (3, body @ u1) # g)" for g
      using t3[of g] by (simp add: dw)
    from sh t3' have m: "match_at qa_pattern (block_text (q, d, c) @ rest)
         = Some (u2 @ rest, [(3, body @ u1), (2, d), (1, py_strip q)])"
      by (rule qa_match_block)
    from u tw have u1s: "\<forall>x\<in>set u1. is_space x" and u2s: "\<forall>x\<in>set u2. is_space x" by auto
    have "py_strip (body @ u1) = body"
      using body u1s by (rule py_strip_trail)
    with False have cc: "c_clean (body @ u1) = body"
      by (simp add: c_clean_def py_replace_nl_id)
    have len: "length u2 \<le> length c" using dec u by simp
    have skip: "match_at qa_pattern (drop i u2 @ rest) = None" if "i < length u2" for i
    proof -
      from that obtain x v where xv: "drop i u2 = x # v" by (cases "drop i u2") auto
      then have "x \<in> set u2" by (metis in_set_dropD list.set_intros(1))
      with u2s have "is_space x" by simp
      then have "\<not> ci_prefix ''Question:'' (drop i u2 @ rest)"
        unfolding xv append_Cons by (rule space_no_marker)
      then show ?thesis by (rule qa_no_match)
    qed
    show ?thesis
    proof (rule exI[of _ u2], rule exI[of _ "body @ u1"], intro conjI)
      show "match_at qa_pattern (block_text (q, d, c) @ rest)
              = Some (u2 @ rest, [(3, body @ u1), (2, d), (1, py_strip q)])" by (rule m)
      show "length u2 \<le> length c" by (rule len)
      show "CHR ''\<newline>'' \<notin> set (py_strip c) \<longrightarrow> c_clean (body @ u1) = py_strip c"
        using cc by (simp add: body_def)
      show "\<forall>i<length u2. match_at qa_pattern (drop i u2 @ rest) = None"
        using skip by blast
    qed
  next
    case True
    with cm have nm: "no_marker c" by (simp add: body_def)
    from body(1) obtain x t where bx: "body = x # t" by (cases body) auto
    with body(2) have "x \<noteq> CHR ''\<newline>''" using nl_space by auto
    then have x1: "[x] \<noteq> []" "CHR ''\<newline>'' \<notin> set [x]" by simp_all
    from tail3_general[OF x1 la, of "t @ tw"] obtain u1 u2 where u: "t @ tw = u1 @ u2"
      and t3: "\<And>g. bt [Rx (seqs qa_tail3)] ([x] @ (t @ tw) @ rest) g
                 = Some (u2 @ rest, (3, [x] @ u1) # g)" by blast
    have t3': "bt [Rx (seqs qa_tail3)] (dropWhile is_space c @ rest) g
                 = Some (u2 @ rest, (3, [x] @ u1) # g)" for g
      using t3[of g] by (simp add: dw bx)
    from sh t3' have m: "match_at qa_pattern (block_text (q, d, c) @ rest)
         = Some (u2 @ rest, [(3, [x] @ u1), (2, d), (1, py_strip q)])"
      by (rule qa_match_block)
    have cu: "c = (wc @ [x] @ u1) @ u2" using dec bx u by simp
    then have len: "length u2 \<le> length c" by simp
    have skip: "match_at qa_pattern (drop i u2 @ rest) = None" if "i < length u2" for i
    proof -
      have "drop i u2 = drop (length (wc @ [x] @ u1) + i) c"
        by (subst cu) (simp only: drop_append length_append, simp)
      with no_marker_drop[OF nm] have n: "\<not> ci_prefix ''Question:'' (drop i u2)" by simp
      have "\<not> ci_prefix ''Question:'' (drop i u2 @ rest)"
      proof (cases "rest = []")
        case True
        with n show ?thesis by simp
      next
        case False
        with r obtain t' where "rest = CHR ''\<newline>'' # t'" by blast
        with ci_prefix_append_cases[of "''Question:''" "drop i u2" "CHR ''\<newline>''" t'] n marker_no_nl
        show ?thesis by blast
      qed
      then show ?thesis by (rule qa_no_match)
    qed
    show ?thesis
    proof (rule exI[of _ u2], rule exI[of _ "[x] @ u1"], intro conjI)
      show "match_at qa_pattern (block_text (q, d, c) @ rest)
              = Some (u2 @ rest, [(3, [x] @ u1), (2, d), (1, py_strip q)])" by (rule m)
      show "length u2 \<le> length c" by (rule len)
      show "CHR ''\<newline>'' \<notin> set (py_strip c) \<longrightarrow> c_clean ([x] @ u1) = py_strip c"
        using True by (simp add: body_def)
      show "\<forall>i<length u2. match_at qa_pattern (drop i u2 @ rest) = None"
        using skip by blast
    qed
  qed
qed

lemma findall_Nil: "findall qa_pattern [] = []"
  by (subst findall.simps) (simp add: qa_no_match_Nil)

lemma findall_block:
  assumes sh: "block_shape (q, d, c)"
    and la: "\<And>g. bt [Rx comment_end] rest g \<noteq> None"
    and r: "rest = [] \<or> (\<exists>t. rest = CHR ''\<newline>'' # t)"
  shows "\<exists>g. findall qa_pattern (block_text (q, d, c) @ rest) = g # findall qa_pattern rest
           \<and> block_match g (q, d, c)"
proof -
  from block_step[OF sh la r] obtain s' c3 where
    m: "match_at qa_pattern (block_text (q, d, c) @ rest)
          = Some (s' @ rest, [(3, c3), (2, d), (1, py_strip q)])"
    and len: "length s' \<le> length c"
    and cc: "CHR ''\<newline>'' \<notin> set (py_strip c) \<longrightarrow> c_clean c3 = py_strip c"
    and skip: "\<forall>i<length s'. match_at qa_pattern (drop i s' @ rest) = None"
    by blast
  let ?g = "[(3, c3), (2, d), (1, py_strip q)]"
  from len have "length (s' @ rest) < length (block_text (q, d, c) @ rest)"
    by (simp add: block_text_def)
  with m have "findall qa_pattern (block_text (q, d, c) @ rest) = ?g # findall qa_pattern (s' @ rest)"
    by (subst findall.simps) simp
  moreover from skip have "findall qa_pattern (s' @ rest) = findall qa_pattern rest"
    by (intro findall_skip) simp
  moreover from cc have "block_match ?g (q, d, c)"
    by (simp add: block_match_def group_def)
  ultimately show ?thesis by simp
qed

lemma findall_narrative:
  "list_all block_shape bs \<Longrightarrow> list_all2 block_match (findall qa_pattern (narrative bs)) bs"
proof (induction bs rule: narrative.induct)
  case 1
  then show ?case by (simp add: findall_Nil)
next
  case (2 b)
  obtain q d c where b: "b = (q, d, c)" by (cases b)
  from 2 b have sh: "block_shape (q, d, c)" by simp
  have la: "bt [Rx comment_end] [] g \<noteq> None" for g by (rule comment_end_Nil)
  from findall_block[OF sh la] obtain g where
    "findall qa_pattern (block_text (q, d, c) @ []) = g # findall qa_pattern []"
    "block_match g (q, d, c)" by blast
  then show ?case by (simp add: b findall_Nil)
next
  case (3 b b' bs)
  obtain q d c where b: "b = (q, d, c)" by (cases b)
  from 3(2) b have sh: "block_shape (q, d, c)" by simp
  from narrative_starts[of "b' # bs"] obtain t where t: "narrative (b' # bs) = ''Question:'' @ t"
    by auto
  let ?rest = "CHR ''\<newline>'' # narrative (b' # bs)"
  have la: "bt [Rx comment_end] ?rest g \<noteq> None" for g
    unfolding t by (rule comment_end_question)
  have r: "?rest = [] \<or> (\<exists>t. ?rest = CHR ''\<newline>'' # t)" by simp
  from findall_block[OF sh la r] obtain g where
    f: "findall qa_pattern (block_text (q, d, c) @ ?rest) = g # findall qa_pattern ?rest"
    and g: "block_match g (q, d, c)" by blast
  have "findall qa_pattern ?rest = findall qa_pattern (narrative (b' # bs))"
    by (subst findall.simps) (simp add: qa_no_match_nl)
  with f have "findall qa_pattern (narrative (b # b' # bs))
      = g # findall qa_pattern (narrative (b' # bs))" by (simp add: b)
  moreover from 3(2) have "list_all block_shape (b' # bs)" by simp
  then have "list_all2 block_match (findall qa_pattern (narrative (b' # bs))) (b' # bs)"
    by (rule 3(1))
  ultimately show ?case using g by (simp add: b)
qed

lemma ci_prefix_take: "ci_prefix p (take (length p) s) = ci_prefix p s"
proof (induction p arbitrary: s)
  case Nil
  then show ?case by simp
next
  case (Cons c p)
  then show ?case by (cases s) auto
qed

lemma findall_lead:
  assumes "lead_ok pre"
  shows "findall qa_pattern (pre @ narrative bs) = findall qa_pattern (narrative bs)"
proof (rule findall_skip)
  fix i assume i: "i < length pre"
  from assms have "\<forall>j<length pre. \<not> ci_prefix ''Question:'' (drop j (pre @ ''Question:''))"
    using first_index_least[of "ci_prefix ''Question:''" "pre @ ''Question:''" "length pre"]
    by (simp add: lead_ok_def)
  with i have n: "\<not> ci_prefix ''Question:'' (drop i pre @ ''Question:'')" by simp
  have "\<not> ci_prefix ''Question:'' (drop i pre @ narrative bs)"
  proof (cases "bs = []")
    case True
    from n ci_prefix_longer[of "''Question:''" "drop i pre" "''Question:''"] True
    show ?thesis by auto
  next
    case False
    from narrative_starts[OF False] obtain t where t: "narrative bs = ''Question:'' @ t" by auto
    have "take (length ''Question:'') (drop i pre @ ''Question:'' @ t)
            = take (length ''Question:'') (drop i pre @ ''Question:'')"
      by (simp only: take_append) simp
    then have "ci_prefix ''Question:'' (drop i pre @ ''Question:'' @ t)
            = ci_prefix ''Question:'' (drop i pre @ ''Question:'')"
      by (metis ci_prefix_take)
    with n have "\<not> ci_prefix ''Question:'' (drop i pre @ ''Question:'' @ t)" by blast
    then show ?thesis unfolding t .
  qed
  then show "match_at qa_pattern (drop i pre @ narrative bs) = None" by (rule qa_no_match)
qed

subsection \<open>Records of a narrative of blocks\<close>

lemma records_of_matches:
  "list_all2 block_match ms bs \<Longrightarrow> list_all wf_block bs \<Longrightarrow>
   list_all (\<lambda>(q, s, c). length s \<le> int_max_str_digits)
     (map (\<lambda>g. (group g 1, group g 2, group g 3)) ms)
   \<and> map (\<lambda>g. (q_clean (group g 1), dec_value (group g 2))) ms
       = map (\<lambda>(q, d, c). (q_clean (py_strip q), dec_value d)) bs
   \<and> list_all2 (\<lambda>g (q, d, c). CHR ''\<newline>'' \<notin> set (py_strip c) \<longrightarrow> c_clean (group g 3) = py_strip c)
       ms bs"
proof (induction rule: list_all2_induct)
  case Nil
  then show ?case by simp
next
  case (Cons g ms b bs)
  obtain q d c where b: "b = (q, d, c)" by (cases b)
  from Cons.prems have wb: "wf_block (q, d, c)" and wbs: "list_all wf_block bs"
    by (simp_all add: b)
  from wb have "length d \<le> int_max_str_digits" by (simp add: wf_block_def)
  with Cons.IH[OF wbs] Cons.hyps(1) show ?case by (simp add: b block_match_def)
qed

lemma wf_block_shape: "list_all wf_block bs \<Longrightarrow> list_all block_shape bs"
  by (simp add: list_all_iff wf_block_def)

lemma long_score_matched:
  "\<exists>c'. qa_matches (block_text (''a'', replicate 4301 CHR ''0'', ''c''))
          = [(''a'', replicate 4301 CHR ''0'', c')]"
proof -
  have sh: "block_shape (''a'', replicate 4301 CHR ''0'', ''c'')"
    by (simp add: block_shape_def py_strip_def is_space_def space_chars_def is_digit_def
          list_all_iff)
  have la: "bt [Rx comment_end] [] g \<noteq> None" for g by (rule comment_end_Nil)
  from findall_block[OF sh la] obtain g where
    f: "findall qa_pattern (block_text (''a'', replicate 4301 CHR ''0'', ''c'') @ [])
          = g # findall qa_pattern []"
    and g: "block_match g (''a'', replicate 4301 CHR ''0'', ''c'')" by blast
  have "py_strip ''a'' = ''a''"
    by (simp add: py_strip_def is_space_def space_chars_def)
  with g have "group g 1 = ''a''" "group g 2 = replicate 4301 CHR ''0''"
    by (simp_all add: block_match_def)
  with f show ?thesis by (simp add: qa_matches_def findall_Nil)
qed

lemma long_score_refused: "py_int (replicate 4301 CHR ''0'') = None"
proof -
  have "replicate 4301 CHR ''0'' \<noteq> []" "\<forall>x\<in>set (replicate 4301 CHR ''0''). is_digit x"
    by (simp_all add: is_digit_def)
  then show ?thesis by (simp add: py_int_digits int_max_str_digits_def)
qed

lemma render_parse_failure:
  "parse_full_report text = Inl e \<Longrightarrow> render_report R req_data (JStr text) = Internal_failure e"
  by (simp add: render_report_def)

lemma handler_reaches_render:
  assumes "check_required required_fields (JObj kvs) = None"
    and "map_of kvs ''ai_overview'' = Some ai_text"
  shows "generate_report_api R (JObj kvs) = render_report R (JObj kvs) ai_text"
proof -
  from assms(2) have "kvs \<noteq> []" by auto
  with assms show ?thesis by (simp add: generate_report_api_def)
qed

subsection \<open>The claims\<close>

text \<open>
  C5: in the chart and in the table alike, a score of at most 3 is in the low (red) band, a
  score above 3 and at most 6 is in the mid (amber/orange) band, and a score above 6 is in
  the high (green) band; so 3 is low, 4 and 6 are mid, and 7 is high.
\<close>

theorem score_color_thresholds:
  "band_of_color (chart_fill_color s) =
     Some (if s \<le> 3 then Low else if s \<le> 6 then Mid else High)
   \<and> band_of_color (table_score_color s) =
     Some (if s \<le> 3 then Low else if s \<le> 6 then Mid else High)
   \<and> band_of_color (chart_fill_color 3) = Some Low
   \<and> band_of_color (table_score_color 3) = Some Low
   \<and> band_of_color (chart_fill_color 4) = Some Mid
   \<and> band_of_color (table_score_color 4) = Some Mid
   \<and> band_of_color (chart_fill_color 6) = Some Mid
   \<and> band_of_color (table_score_color 6) = Some Mid
   \<and> band_of_color (chart_fill_color 7) = Some High
   \<and> band_of_color (table_score_color 7) = Some High"
  by (simp add: chart_fill_color_def table_score_color_def band_of_color_def)

text \<open>
  C6: at every integer score the chart's threshold logic and the table's threshold logic
  choose the same band.
\<close>

theorem chart_table_same_band:
  "band_of_color (chart_fill_color s) = band_of_color (table_score_color s)"
  by (simp add: chart_fill_color_def table_score_color_def band_of_color_def)

text \<open>
  C1: the scenario narrative with one question block followed by an unnumbered
  \<open>Overall Evaluation:\<close> section. The parse gives one record and the remainder stated, but
  the comment of the record does not stop at \<open>Excellent clarity\<close>: the lookahead that
  ends a comment knows the next \<open>Question:\<close>, a numbered line and the end of the text, not
  the unnumbered marker that the search for the remainder accepts, so the comment runs to
  the end of the text.
\<close>

theorem scenario_comment_runs_to_end:
  "parse_full_report
     ''Question: Your communication skills\<newline>Score: 8\<newline>Comment: Excellent clarity\<newline>\<newline>Overall Evaluation: Strong candidate.\<newline>Strengths: good\<newline>Weaknesses: none\<newline>Final Recommendation: Hire''
   = Inr ([(''communication skills'', 8,
            ''Excellent clarity  Overall Evaluation: Strong candidate. Strengths: good Weaknesses: none Final Recommendation: Hire'')],
          ''Overall Evaluation: Strong candidate.\<newline>Strengths: good\<newline>Weaknesses: none\<newline>Final Recommendation: Hire'')"
  by code_simp




text \<open>
  C10: the empty JSON object is answered with \<open>No JSON data provided\<close>, not with a
  \<open>Missing field\<close> error, although every required field is absent from it.
\<close>

theorem empty_object_no_json_data:
  "generate_report_api R (JObj []) = Bad_request ''No JSON data provided''
   \<and> map (\<lambda>f. py_in f (JObj [])) required_fields
       = [Inr False, Inr False, Inr False, Inr False, Inr False]
   \<and> (\<forall>f. generate_report_api R (JObj []) \<noteq> Bad_request (''Missing field: '' @ f))"
  by (simp add: generate_report_api_def required_fields_def)

lemma check_required_find:
  "check_required fs (JObj kvs) =
     map_option (\<lambda>f. Bad_request (''Missing field: '' @ f)) (find (\<lambda>f. f \<notin> set (map fst kvs)) fs)"
  by (induction fs) auto

text \<open>
  C9, as amended: for every non-empty JSON object from which a required field is absent,
  the answer is the error \<open>Missing field: f\<close>, where \<open>f\<close> is the first absent field
  in the order of \<open>required_fields\<close>; no document is produced.
\<close>

theorem missing_field_named:
  assumes "kvs \<noteq> []" and "find (\<lambda>f. f \<notin> set (map fst kvs)) required_fields = Some f"
  shows "generate_report_api R (JObj kvs) = Bad_request (''Missing field: '' @ f)"
  using assms by (simp add: generate_report_api_def check_required_find)

theorem missing_field_named_witness:
  "[(''date'', JStr ''d'')] \<noteq> []
   \<and> find (\<lambda>f. f \<notin> set (map fst [(''date'', JStr ''d'')])) required_fields = Some ''candidate_name''
   \<and> generate_report_api paired_bold (JObj [(''date'', JStr ''d'')])
       = Bad_request ''Missing field: candidate_name''"
  using missing_field_named [of "[(''date'', JStr ''d'')]" "''candidate_name''" paired_bold]
  by (simp add: required_fields_def)

text \<open>
  C9, as stated, fails at the empty object: all five required fields are absent from it,
  and the answer names none of them.
\<close>

theorem empty_payload_counterexample:
  "map (\<lambda>f. f \<in> set (map fst ([] :: (string \<times> json) list))) required_fields = [False, False, False, False, False]
   \<and> map (\<lambda>f. generate_report_api paired_bold (JObj []) = Bad_request (''Missing field: '' @ f))
       required_fields
       = [False, False, False, False, False]"
  by (simp add: required_fields_def generate_report_api_def)

text \<open>
  C8: when \<^verbatim>\<open>int\<close> refuses a score token that the pattern has matched, the parse fails
  with \<^verbatim>\<open>ValueError\<close>, and a request that has passed the field check with this text as
  its \<open>ai_overview\<close> is answered with that internal failure, not with a document. A
  matched token is a non-empty run of decimal digits, so the tokens \<^verbatim>\<open>int\<close> refuses are
  the runs of more than 4300 digits; there is such an input: the block whose score is a
  run of 4301 zeros is matched with that token, and \<^verbatim>\<open>int\<close> refuses it.
\<close>

theorem unparseable_score_internal_failure:
  assumes "(q, s, c) \<in> set (qa_matches text)" and "py_int s = None"
  shows "parse_full_report text = Inl ValueError
         \<and> (check_required required_fields (JObj kvs) = None
              \<and> map_of kvs ''ai_overview'' = Some (JStr text)
            \<longrightarrow> generate_report_api R (JObj kvs) = Internal_failure ValueError
                \<and> (\<forall>ident story. generate_report_api R (JObj kvs) \<noteq> Pdf_file ident story))
         \<and> s \<noteq> [] \<and> list_all is_digit s \<and> int_max_str_digits < length s
         \<and> (\<exists>c'. qa_matches (block_text (''a'', replicate 4301 CHR ''0'', ''c''))
                   = [(''a'', replicate 4301 CHR ''0'', c')])
         \<and> py_int (replicate 4301 CHR ''0'') = None"
proof -
  from assms(1) qa_matches_digits[of "text"] have d: "s \<noteq> []" "\<forall>x\<in>set s. is_digit x"
    by auto
  with assms(2) have long: "int_max_str_digits < length s"
    by (simp add: py_int_digits split: if_splits)
  with assms(1) have "\<not> list_all (\<lambda>(q, s, c). length s \<le> int_max_str_digits) (qa_matches text)"
    by (force simp: list_all_iff)
  then have p: "parse_full_report text = Inl ValueError"
    by (simp add: parse_full_report_cases)
  have h: "generate_report_api R (JObj kvs) = Internal_failure ValueError"
    if "check_required required_fields (JObj kvs) = None"
      and "map_of kvs ''ai_overview'' = Some (JStr text)"
    using handler_reaches_render[OF that, of R] render_parse_failure[OF p, of R "JObj kvs"]
    by simp
  from d(2) have ds: "list_all is_digit s" by (simp add: list_all_iff)
  show ?thesis
  proof (intro conjI)
    show "parse_full_report text = Inl ValueError" by (rule p)
    show "check_required required_fields (JObj kvs) = None
              \<and> map_of kvs ''ai_overview'' = Some (JStr text)
            \<longrightarrow> generate_report_api R (JObj kvs) = Internal_failure ValueError
                \<and> (\<forall>ident story. generate_report_api R (JObj kvs) \<noteq> Pdf_file ident story)"
      using h by simp
    show "s \<noteq> []" by (rule d(1))
    show "list_all is_digit s" by (rule ds)
    show "int_max_str_digits < length s" by (rule long)
    show "\<exists>c'. qa_matches (block_text (''a'', replicate 4301 CHR ''0'', ''c''))
                   = [(''a'', replicate 4301 CHR ''0'', c')]" by (rule long_score_matched)
    show "py_int (replicate 4301 CHR ''0'') = None" by (rule long_score_refused)
  qed
qed

theorem unparseable_score_internal_failure_witness:
  "(\<exists>c'. (''a'', replicate 4301 CHR ''0'', c')
           \<in> set (qa_matches (block_text (''a'', replicate 4301 CHR ''0'', ''c''))))
   \<and> py_int (replicate 4301 CHR ''0'') = None
   \<and> check_required required_fields
        (JObj [(''candidate_name'', JStr ''A''), (''candidate_position'', JStr ''B''),
               (''date'', JStr ''d''), (''interview_id'', JStr ''7''),
               (''ai_overview'', JStr (block_text (''a'', replicate 4301 CHR ''0'', ''c'')))]) = None
   \<and> parse_full_report (block_text (''a'', replicate 4301 CHR ''0'', ''c'')) = Inl ValueError
   \<and> generate_report_api paired_bold
        (JObj [(''candidate_name'', JStr ''A''), (''candidate_position'', JStr ''B''),
               (''date'', JStr ''d''), (''interview_id'', JStr ''7''),
               (''ai_overview'', JStr (block_text (''a'', replicate 4301 CHR ''0'', ''c'')))])
       = Internal_failure ValueError"
proof -
  let ?t = "block_text (''a'', replicate 4301 CHR ''0'', ''c'')"
  let ?kvs = "[(''candidate_name'', JStr ''A''), (''candidate_position'', JStr ''B''),
               (''date'', JStr ''d''), (''interview_id'', JStr ''7''),
               (''ai_overview'', JStr ?t)]"
  from long_score_matched obtain c' where m: "qa_matches ?t = [(''a'', replicate 4301 CHR ''0'', c')]"
    by blast
  then have h1: "(''a'', replicate 4301 CHR ''0'', c') \<in> set (qa_matches ?t)" by simp
  have h2: "py_int (replicate 4301 CHR ''0'') = None" by (rule long_score_refused)
  have h3: "check_required required_fields (JObj ?kvs) = None"
    by (simp add: required_fields_def)
  have h4: "map_of ?kvs ''ai_overview'' = Some (JStr ?t)" by simp
  from unparseable_score_internal_failure[OF h1 h2, of ?kvs paired_bold] h1 h2 h3 h4
  show ?thesis by blast
qed

text \<open>
  C4, as amended: the remainder is the trimmed text from the least position at which the
  marker stands, the marker being \<open>Overall Evaluation:\<close>, or \<open>2.\<close>, any run of
  whitespace (also none) and \<open>Overall Evaluation:\<close>, letter case ignored; it is empty when
  the marker stands nowhere; and whenever the parse returns, it returns this remainder,
  whatever records it extracts.
\<close>

theorem remainder_from_first_marker:
  "remaining_text text =
     (case first_index marker_at text of Some i \<Rightarrow> py_strip (drop i text) | None \<Rightarrow> [])
   \<and> (\<forall>qa rem. parse_full_report text = Inr (qa, rem) \<longrightarrow> rem = remaining_text text)"
proof -
  have "(\<lambda>t. match_at split_pattern t \<noteq> None) = marker_at"
    by (rule ext) (rule match_at_split)
  then have "remaining_text text =
     (case first_index marker_at text of Some i \<Rightarrow> py_strip (drop i text) | None \<Rightarrow> [])"
    by (simp add: remaining_text_def search_first_index)
  moreover have "\<forall>qa rem. parse_full_report text = Inr (qa, rem) \<longrightarrow> rem = remaining_text text"
    using parse_full_report_Inr[of "text"] by blast
  ultimately show ?thesis by (rule conjI)
qed

theorem remainder_from_first_marker_witness:
  "parse_full_report ''Question: a\<newline>Score: 4\<newline>Comment: b\<newline>2.\<newline> overall evaluation: x ''
     = Inr ([(''a'', 4, ''b'')], ''2.\<newline> overall evaluation: x'')
   \<and> first_index marker_at ''Question: a\<newline>Score: 4\<newline>Comment: b\<newline>2.\<newline> overall evaluation: x '' = Some 32
   \<and> remaining_text ''Question: a\<newline>Score: 4\<newline>Comment: b\<newline>2.\<newline> overall evaluation: x ''
     = ''2.\<newline> overall evaluation: x''"
proof -
  have v: "parse_full_report ''Question: a\<newline>Score: 4\<newline>Comment: b\<newline>2.\<newline> overall evaluation: x ''
     = Inr ([(''a'', 4, ''b'')], ''2.\<newline> overall evaluation: x'')"
    by code_simp
  have i: "first_index marker_at ''Question: a\<newline>Score: 4\<newline>Comment: b\<newline>2.\<newline> overall evaluation: x '' = Some 32"
    by code_simp
  from remainder_from_first_marker[of "''Question: a\<newline>Score: 4\<newline>Comment: b\<newline>2.\<newline> overall evaluation: x ''"] v i
  show ?thesis by simp
qed

text \<open>
  C4, as stated, fails when \<open>2.\<close> is not followed by exactly one space: the code starts
  the remainder at \<open>2.\<close>, the first occurrence of one of the two literal markers is at
  \<open>Overall\<close>.
\<close>

theorem literal_marker_counterexample:
  "remaining_text ''2.Overall Evaluation: x'' = ''2.Overall Evaluation: x''
   \<and> literal_remainder ''2.Overall Evaluation: x'' = ''Overall Evaluation: x''"
  by code_simp

text \<open>
  C3, as amended: the question of a record is the matched text with every occurrence of
  \<open>Your \<close> removed (found from the left, without overlap), then trimmed; when \<open>Your \<close>
  occurs nowhere after a leading one has been taken off, that is the matched text with one
  leading \<open>Your \<close> removed and trimmed. The comment is the matched text trimmed, with each
  line feed turned into one space. The score is the decimal value of the matched digits.
  The parse returns these records, one for each match, unless a matched score has more
  digits than \<^verbatim>\<open>int\<close> accepts; then it raises \<^verbatim>\<open>ValueError\<close>.
\<close>

theorem record_question_and_comment:
  "parse_full_report text =
     (if list_all (\<lambda>(q, s, c). length s \<le> int_max_str_digits) (qa_matches text)
      then Inr (map (\<lambda>(q, s, c).
              (py_strip (py_replace ''Your '' [] q), dec_value s,
               map (\<lambda>x. if x = CHR ''\<newline>'' then CHR '' '' else x) (py_strip c)))
             (qa_matches text),
            remaining_text text)
      else Inl ValueError)
   \<and> (\<not> is_substring ''Your '' (strip_leading_your q) \<longrightarrow>
        py_strip (py_replace ''Your '' [] q) = py_strip (strip_leading_your q))"
proof -
  have "py_replace ''Your '' [] q = strip_leading_your q"
    if a: "\<not> is_substring ''Your '' (strip_leading_your q)"
  proof (cases "take 5 q = ''Your ''")
    case True
    with a have r: "py_replace ''Your '' [] (drop 5 q) = drop 5 q"
      by (intro py_replace_absent) (simp_all add: strip_leading_your_def)
    have l: "length ''Your '' = 5" by simp
    have "py_replace ''Your '' [] q = [] @ py_replace ''Your '' [] (drop (length ''Your '') q)"
      by (rule py_replace_match) (simp, simp only: l True)
    also have "\<dots> = drop 5 q" by (simp only: l append_Nil r)
    finally show ?thesis using True by (simp add: strip_leading_your_def)
  next
    case False
    with a show ?thesis
      by (simp add: strip_leading_your_def py_replace_absent)
  qed
  then show ?thesis
    by (simp add: parse_full_report_cases q_clean_def c_clean_def py_replace_char)
qed

theorem record_question_and_comment_witness:
  "\<not> is_substring ''Your '' (strip_leading_your ''Your skills '')
   \<and> parse_full_report ''Question: Your skills \<newline>Score: 5\<newline>Comment: a\<newline>b''
       = Inr ([(''skills'', 5, ''a b'')], [])
   \<and> py_strip (py_replace ''Your '' [] ''Your skills '') = py_strip (strip_leading_your ''Your skills '')"
proof -
  have h: "\<not> is_substring ''Your '' (strip_leading_your ''Your skills '')"
    by (simp add: strip_leading_your_def)
  have v: "parse_full_report ''Question: Your skills \<newline>Score: 5\<newline>Comment: a\<newline>b''
       = Inr ([(''skills'', 5, ''a b'')], [])" by code_simp
  from record_question_and_comment[of "''Question: Your skills \<newline>Score: 5\<newline>Comment: a\<newline>b''" "''Your skills ''"] h v
  show ?thesis by blast
qed

text \<open>
  C3, as stated, fails when \<open>Your \<close> stands inside the question: the code removes it
  there too, where the claim has the text unaltered.
\<close>

theorem inner_your_counterexample:
  "qa_matches ''Question: Rate Your skills\<newline>Score: 5\<newline>Comment: ok''
     = [(''Rate Your skills'', ''5'', ''ok'')]
   \<and> parse_full_report ''Question: Rate Your skills\<newline>Score: 5\<newline>Comment: ok''
     = Inr ([(''Rate skills'', 5, ''ok'')], [])
   \<and> py_strip (strip_leading_your ''Rate Your skills'') = ''Rate Your skills''"
  by code_simp

text \<open>
  C2, as amended: take any text in which no \<open>Question:\<close> marker begins, and after it N
  well-formed blocks, each joined to the next by a line feed. A block is well formed when
  its question lies on one line and is not blank, its score is a run of 1 to 4300 decimal
  digits, and its comment is not blank and either is one line once trimmed (blank lines
  may follow it, so blocks may be separated by blank lines) or holds no \<open>Question:\<close>
  marker (it may then run over several lines, and over the text that follows the last
  block). Then the parse returns exactly N records in the order of the blocks; the question
  of each record is the block's trimmed question with \<open>Your \<close> removed, its score is the
  integer that \<^verbatim>\<open>int\<close> reads from the block's score token, and its comment is the block's
  trimmed comment when that is one line.
\<close>

theorem wellformed_blocks_parsed:
  assumes "list_all wf_block bs" and "lead_ok pre"
  shows "\<exists>qa. parse_full_report (pre @ narrative bs)
                = Inr (qa, remaining_text (pre @ narrative bs))
           \<and> length qa = length bs
           \<and> map (\<lambda>(q, s, c). (q, s)) qa
               = map (\<lambda>(q, d, c). (q_clean (py_strip q), dec_value d)) bs
           \<and> list_all2 (\<lambda>(q, s, c) (q', d, c').
                 CHR ''\<newline>'' \<notin> set (py_strip c') \<longrightarrow> c = py_strip c') qa bs
           \<and> list_all (\<lambda>(q, d, c). py_int d = Some (dec_value d)) bs"
proof -
  define ms where "ms = findall qa_pattern (pre @ narrative bs)"
  define qa where "qa = map (\<lambda>g. (q_clean (group g 1), dec_value (group g 2), c_clean (group g 3))) ms"
  have "ms = findall qa_pattern (narrative bs)"
    unfolding ms_def using assms(2) by (rule findall_lead)
  with findall_narrative[OF wf_block_shape[OF assms(1)]]
  have "list_all2 block_match ms bs" by simp
  from records_of_matches[OF this assms(1)]
  have short: "list_all (\<lambda>(q, s, c). length s \<le> int_max_str_digits)
                 (map (\<lambda>g. (group g 1, group g 2, group g 3)) ms)"
    and qs: "map (\<lambda>g. (q_clean (group g 1), dec_value (group g 2))) ms
              = map (\<lambda>(q, d, c). (q_clean (py_strip q), dec_value d)) bs"
    and cs: "list_all2 (\<lambda>g (q, d, c).
               CHR ''\<newline>'' \<notin> set (py_strip c) \<longrightarrow> c_clean (group g 3) = py_strip c) ms bs"
    by blast+
  from short have p: "parse_full_report (pre @ narrative bs)
      = Inr (qa, remaining_text (pre @ narrative bs))"
    by (simp add: parse_full_report_cases qa_matches_def qa_def ms_def comp_def)
  have r1: "map (\<lambda>(q, s, c). (q, s)) qa
        = map (\<lambda>(q, d, c). (q_clean (py_strip q), dec_value d)) bs"
    using qs by (simp add: qa_def comp_def)
  from arg_cong[OF r1, of length] have r0: "length qa = length bs" by simp
  have r2: "list_all2 (\<lambda>(q, s, c) (q', d, c').
                 CHR ''\<newline>'' \<notin> set (py_strip c') \<longrightarrow> c = py_strip c') qa bs"
    using cs by (simp add: qa_def list_all2_map1 split_def)
  have r4: "list_all (\<lambda>(q, d, c). py_int d = Some (dec_value d)) bs"
    using assms(1)
    by (auto simp: list_all_iff wf_block_def block_shape_def py_int_digits)
  show ?thesis
  proof (rule exI[of _ qa], intro conjI)
    show "parse_full_report (pre @ narrative bs) = Inr (qa, remaining_text (pre @ narrative bs))"
      by (rule p)
    show "length qa = length bs" by (rule r0)
    show "map (\<lambda>(q, s, c). (q, s)) qa = map (\<lambda>(q, d, c). (q_clean (py_strip q), dec_value d)) bs"
      by (rule r1)
    show "list_all2 (\<lambda>(q, s, c) (q', d, c').
                 CHR ''\<newline>'' \<notin> set (py_strip c') \<longrightarrow> c = py_strip c') qa bs"
      by (rule r2)
    show "list_all (\<lambda>(q, d, c). py_int d = Some (dec_value d)) bs"
      by (rule r4)
  qed
qed

theorem wellformed_blocks_parsed_witness:
  "list_all wf_block
     [(''Your teamwork'', ''7'', ''Good\<newline>''),
      (''Focus '', ''03'', '' ok then\<newline>\<newline>2. Overall Evaluation: fine'')]
   \<and> lead_ok ''Report for A.\<newline>\<newline>''
   \<and> ''Report for A.\<newline>\<newline>''
       @ narrative [(''Your teamwork'', ''7'', ''Good\<newline>''),
                    (''Focus '', ''03'', '' ok then\<newline>\<newline>2. Overall Evaluation: fine'')]
     = ''Report for A.\<newline>\<newline>Question: Your teamwork\<newline>Score: 7\<newline>Comment: Good\<newline>\<newline>Question: Focus \<newline>Score: 03\<newline>Comment:  ok then\<newline>\<newline>2. Overall Evaluation: fine''
   \<and> parse_full_report
        (''Report for A.\<newline>\<newline>''
          @ narrative [(''Your teamwork'', ''7'', ''Good\<newline>''),
                       (''Focus '', ''03'', '' ok then\<newline>\<newline>2. Overall Evaluation: fine'')])
       = Inr ([(''teamwork'', 7, ''Good''), (''Focus'', 3, ''ok then'')],
              ''2. Overall Evaluation: fine'')"
proof -
  let ?bs = "[(''Your teamwork'', ''7'', ''Good\<newline>''),
              (''Focus '', ''03'', '' ok then\<newline>\<newline>2. Overall Evaluation: fine'')]"
  have h1: "list_all wf_block ?bs" by code_simp
  have h2: "lead_ok ''Report for A.\<newline>\<newline>''" by code_simp
  have t: "''Report for A.\<newline>\<newline>'' @ narrative ?bs
     = ''Report for A.\<newline>\<newline>Question: Your teamwork\<newline>Score: 7\<newline>Comment: Good\<newline>\<newline>Question: Focus \<newline>Score: 03\<newline>Comment:  ok then\<newline>\<newline>2. Overall Evaluation: fine''"
    by (simp add: block_text_def)
  have v: "parse_full_report (''Report for A.\<newline>\<newline>'' @ narrative ?bs)
       = Inr ([(''teamwork'', 7, ''Good''), (''Focus'', 3, ''ok then'')],
              ''2. Overall Evaluation: fine'')"
    by code_simp
  from wellformed_blocks_parsed[OF h1 h2] h1 h2 t v show ?thesis by blast
qed

text \<open>
  C2, as stated, fails at a block with an empty comment: the pattern wants at least one
  character of comment, takes the line feed, and the comment then runs over the next
  block. Two blocks of the stated shape give one record.
\<close>

theorem empty_comment_counterexample:
  "narrative [(''z'', ''7'', []), (''y'', ''3'', ''ok'')]
     = ''Question: z\<newline>Score: 7\<newline>Comment: \<newline>Question: y\<newline>Score: 3\<newline>Comment: ok''
   \<and> parse_full_report
        ''Question: z\<newline>Score: 7\<newline>Comment: \<newline>Question: y\<newline>Score: 3\<newline>Comment: ok''
     = Inr ([(''z'', 7, ''Question: y Score: 3 Comment: ok'')], [])"
  by code_simp

end
